theory Spec2Isabelle
  imports Complex_Main "HOL-Library.Word" "HOL-Library.Sublist" "HOL-Library.Finite_Map"
begin

unbundle bit_operations_syntax

section \<open>Bytes and IEEE-754 doubles\<close>

type_synonym byte = "8 word"
type_synonym bytes = "byte list"

text \<open>
  A JavaScript number is a C \<^verbatim>\<open>double\<close>. It is modelled by its IEEE-754 binary64 bit
  pattern: bit 63 is the sign, bits 62..52 the biased exponent, bits 51..0 the mantissa.
  The operations below are the ones \<^verbatim>\<open>msgpack.cc\<close> applies to a double: \<^verbatim>\<open>trunc\<close>,
  \<^verbatim>\<open>!=\<close>, \<^verbatim>\<open>> 0\<close>, the conversions to \<^verbatim>\<open>uint64_t\<close> and \<^verbatim>\<open>int64_t\<close>, and V8's
  \<^verbatim>\<open>Integer::New\<close> / \<^verbatim>\<open>Integer::NewFromUnsigned\<close> that build a number from a 32-bit
  integer.
\<close>

type_synonym double = "64 word"

definition d_neg :: "double \<Rightarrow> bool" where
  "d_neg d = (2 ^ 63 \<le> unat d)"

definition d_exp :: "double \<Rightarrow> nat" where
  "d_exp d = (unat d div 2 ^ 52) mod 2 ^ 11"

definition d_man :: "double \<Rightarrow> nat" where
  "d_man d = unat d mod 2 ^ 52"

definition is_nan :: "double \<Rightarrow> bool" where
  "is_nan d = (d_exp d = 2047 \<and> d_man d \<noteq> 0)"

definition is_inf :: "double \<Rightarrow> bool" where
  "is_inf d = (d_exp d = 2047 \<and> d_man d = 0)"

definition is_zero :: "double \<Rightarrow> bool" where
  "is_zero d = (d_exp d = 0 \<and> d_man d = 0)"

definition is_finite :: "double \<Rightarrow> bool" where
  "is_finite d = (d_exp d < 2047)"

text \<open>The significand (with the implicit leading bit of a normal number) and the power
  of two it is scaled by: the magnitude of a finite \<open>d\<close> is \<open>d_sig d * 2 ^ (d_scale d - 1075)\<close>.\<close>

definition d_sig :: "double \<Rightarrow> nat" where
  "d_sig d = (if d_exp d = 0 then d_man d else 2 ^ 52 + d_man d)"

definition d_scale :: "double \<Rightarrow> nat" where
  "d_scale d = (if d_exp d = 0 then 1 else d_exp d)"

text \<open>The mathematical value of a finite double.\<close>

definition d_val :: "double \<Rightarrow> rat" where
  "d_val d =
     (if d_neg d then - 1 else 1) *
     (if 1075 \<le> d_scale d then of_nat (d_sig d * 2 ^ (d_scale d - 1075))
      else of_nat (d_sig d) / of_nat (2 ^ (1075 - d_scale d)))"

text \<open>C's \<^verbatim>\<open>trunc\<close>: at exponent 1075 and above (magnitude at least \<open>2 ^ 52\<close>, infinities
  and NaN) the argument is returned; below exponent 1023 (magnitude under 1) the result is
  a zero of the same sign; in between the fractional bits of the mantissa are cleared.\<close>

definition d_trunc :: "double \<Rightarrow> double" where
  "d_trunc d =
     (if 1075 \<le> d_exp d then d
      else if d_exp d < 1023 then push_bit 63 (drop_bit 63 d)
      else push_bit (1075 - d_exp d) (drop_bit (1075 - d_exp d) d))"

text \<open>C's \<^verbatim>\<open>==\<close> on doubles: NaN equals nothing, the two zeros are equal.\<close>

definition d_eq :: "double \<Rightarrow> double \<Rightarrow> bool" where
  "d_eq a b = (\<not> is_nan a \<and> \<not> is_nan b \<and> (a = b \<or> (is_zero a \<and> is_zero b)))"

text \<open>C's \<^verbatim>\<open>d > 0\<close>.\<close>

definition d_gt0 :: "double \<Rightarrow> bool" where
  "d_gt0 d = (\<not> is_nan d \<and> \<not> d_neg d \<and> \<not> is_zero d)"

text \<open>The magnitude of a finite double, rounded towards zero.\<close>

definition d_mag :: "double \<Rightarrow> nat" where
  "d_mag d =
     (if 1075 \<le> d_scale d then d_sig d * 2 ^ (d_scale d - 1075)
      else d_sig d div 2 ^ (1075 - d_scale d))"

text \<open>
  The casts \<^verbatim>\<open>mo->via.i64 = d\<close> and \<^verbatim>\<open>mo->via.u64 = d\<close>. A C cast of a double to an
  integer type yields the value rounded towards zero when that fits the type, and is
  undefined otherwise. Where C leaves the cast undefined, the definitions give what the
  program compiled for x86-64 computes. There the conversion is the instruction
  \<^verbatim>\<open>cvttsd2si\<close>, which yields \<open>0x8000000000000000\<close> for every operand outside the range
  of \<^verbatim>\<open>int64_t\<close>, infinities and NaN included. The conversion to \<^verbatim>\<open>uint64_t\<close> of an
  operand of \<open>2 ^ 63\<close> or more subtracts \<open>2 ^ 63\<close>, converts, and sets bit 63 again; this
  gives 0 from \<open>2 ^ 64\<close> on and for the positive infinity. \<^verbatim>\<open>v8_to_msgpack\<close> applies the
  unsigned cast to positive whole numbers only, and the signed cast to zero and negative
  whole numbers only.
\<close>

definition cvttsd2si :: "double \<Rightarrow> 64 word" where
  "cvttsd2si d =
     (if is_finite d \<and> (d_mag d < 2 ^ 63 \<or> (d_neg d \<and> d_mag d = 2 ^ 63))
      then (if d_neg d then - word_of_nat (d_mag d) else word_of_nat (d_mag d))
      else 0x8000000000000000)"

definition d_to_i64 :: "double \<Rightarrow> 64 word" where
  "d_to_i64 d = cvttsd2si d"

definition d_to_u64 :: "double \<Rightarrow> 64 word" where
  "d_to_u64 d =
     (if is_nan d \<or> d_neg d \<or> (is_finite d \<and> d_mag d < 2 ^ 63) then cvttsd2si d
      else if is_finite d \<and> d_mag d < 2 ^ 64 then word_of_nat (d_mag d)
      else 0)"

text \<open>The index of the highest set bit of a positive number.\<close>

fun msb :: "nat \<Rightarrow> nat" where
  "msb n = (if n < 2 then 0 else Suc (msb (n div 2)))"

declare msb.simps [simp del]

text \<open>The double equal to a natural number below \<open>2 ^ 53\<close> (every such number is
  representable exactly), and to an integer of that magnitude.\<close>

definition nat_to_double :: "nat \<Rightarrow> double" where
  "nat_to_double n =
     (if n = 0 then 0
      else word_of_nat ((1023 + msb n) * 2 ^ 52 + (n * 2 ^ (52 - msb n) - 2 ^ 52)))"

definition int_to_double :: "int \<Rightarrow> double" where
  "int_to_double i =
     (if i < 0 then word_of_nat (2 ^ 63) + nat_to_double (nat (- i))
      else nat_to_double (nat i))"

text \<open>\<^verbatim>\<open>Integer::New(int32_t)\<close> and \<^verbatim>\<open>Integer::NewFromUnsigned(uint32_t)\<close>: the
  argument has already been narrowed to 32 bits by the C++ call.\<close>

definition Integer_New :: "32 word \<Rightarrow> double" where
  "Integer_New w = int_to_double (sint w)"

definition Integer_NewFromUnsigned :: "32 word \<Rightarrow> double" where
  "Integer_NewFromUnsigned w = nat_to_double (unat w)"

section \<open>Host values\<close>

text \<open>
  A V8 handle is a primitive or a reference to an object on the JavaScript heap; two
  references are the same object exactly when their addresses are equal. A string is
  identified with the bytes of its UTF-8 encoding, which is what \<^verbatim>\<open>String::Utf8Value\<close>
  yields. A plain object is the list of its enumerable own properties in enumeration
  order, each under the key \<^verbatim>\<open>GetPropertyNames\<close> yields for it: a number for a name
  that is an array index, and the string otherwise. So \<^verbatim>\<open>{a: 1, "7": 2}\<close> is the list
  of the number 7 with 2 and the string \<^verbatim>\<open>a\<close> with 1.
\<close>

datatype hval =
    Undefined
  | Null
  | Bool bool
  | Number double
  | Str bytes
  | Ref nat

datatype hobj =
    ArrayObj "hval list"
  | BufferObj bytes
  | PlainObj "(hval \<times> hval) list"

type_synonym heap = "hobj list"

definition heap_get :: "heap \<Rightarrow> nat \<Rightarrow> hobj option" where
  "heap_get h a = (if a < length h then Some (h ! a) else None)"

text \<open>\<^verbatim>\<open>o->GetPropertyNames()\<close> and \<^verbatim>\<open>o->Get(k)\<close>; a missing property reads as
  undefined.\<close>

definition GetPropertyNames :: "(hval \<times> hval) list \<Rightarrow> hval list" where
  "GetPropertyNames ps = map fst ps"

definition Get :: "(hval \<times> hval) list \<Rightarrow> hval \<Rightarrow> hval" where
  "Get ps k = (case map_of ps k of None \<Rightarrow> Undefined | Some v \<Rightarrow> v)"

text \<open>\<^verbatim>\<open>args[i]\<close>: V8 yields undefined beyond the arguments passed.\<close>

definition arg :: "hval list \<Rightarrow> nat \<Rightarrow> hval" where
  "arg args i = (if i < length args then args ! i else Undefined)"

definition Buffer_HasInstance :: "heap \<Rightarrow> hval \<Rightarrow> bool" where
  "Buffer_HasInstance h v =
     (case v of Ref a \<Rightarrow> (case heap_get h a of Some (BufferObj bs) \<Rightarrow> True | _ \<Rightarrow> False)
      | _ \<Rightarrow> False)"

definition Buffer_Data :: "heap \<Rightarrow> hval \<Rightarrow> bytes" where
  "Buffer_Data h v =
     (case v of Ref a \<Rightarrow> (case heap_get h a of Some (BufferObj bs) \<Rightarrow> bs | _ \<Rightarrow> [])
      | _ \<Rightarrow> [])"

text \<open>JavaScript's \<^verbatim>\<open>===\<close>, which \<^verbatim>\<open>StrictEquals\<close> implements: identity on objects.\<close>

fun StrictEquals :: "hval \<Rightarrow> hval \<Rightarrow> bool" where
  "StrictEquals Undefined Undefined = True"
| "StrictEquals Null Null = True"
| "StrictEquals (Bool a) (Bool b) = (a = b)"
| "StrictEquals (Number a) (Number b) = d_eq a b"
| "StrictEquals (Str a) (Str b) = (a = b)"
| "StrictEquals (Ref a) (Ref b) = (a = b)"
| "StrictEquals _ _ = False"

datatype exn = TypeError string | Error string

section \<open>The MessagePack object tree\<close>

datatype msgpack_object =
    NIL
  | BOOLEAN bool
  | POSITIVE_INTEGER "64 word"
  | NEGATIVE_INTEGER "64 word"
  | DOUBLE double
  | RAW bytes
  | ARRAY "msgpack_object list"
  | MAP "(msgpack_object \<times> msgpack_object) list"

section \<open>The cycle guard (\<^verbatim>\<open>class MsgpackCycle\<close>)\<close>

text \<open>The guard's \<^verbatim>\<open>_objs\<close> list, oldest entry first.\<close>

type_synonym cycle = "hval list"

text \<open>\<^verbatim>\<open>out\<close> is \<^verbatim>\<open>_objs.pop_back()\<close>.\<close>

definition out :: "cycle \<Rightarrow> cycle" where
  "out objs = butlast objs"

definition circular_msg :: string where
  "circular_msg = ''Cowardly refusing to pack object with circular reference''"

text \<open>\<^verbatim>\<open>enter\<close>: when some entry is strictly equal to the value, the guard calls
  \<^verbatim>\<open>out()\<close> once and throws; otherwise the value is pushed at the back.\<close>

definition enter :: "hval \<Rightarrow> cycle \<Rightarrow> (exn \<times> cycle) + cycle" where
  "enter v objs =
     (if list_ex (\<lambda>x. StrictEquals x v) objs
      then Inl (TypeError circular_msg, out objs)
      else Inr (objs @ [v]))"

section \<open>Encoding: \<^verbatim>\<open>v8_to_msgpack\<close>\<close>

text \<open>The node of a number: the branch on \<^verbatim>\<open>trunc(d) != d\<close> and \<^verbatim>\<open>d > 0\<close>.\<close>

definition number_node :: "double \<Rightarrow> msgpack_object" where
  "number_node d =
     (if \<not> d_eq (d_trunc d) d then DOUBLE d
      else if d_gt0 d then POSITIVE_INTEGER (d_to_u64 d)
      else NEGATIVE_INTEGER (d_to_i64 d))"

text \<open>
  The result of a conversion is \<open>None\<close> when it does not return (the recursion is deeper
  than the fuel, or a handle points outside the heap, which V8 never produces), and
  otherwise the node or the exception thrown, together with the guard as the call leaves it.
  The two loops of \<^verbatim>\<open>v8_to_msgpack\<close> run the recursive call \<open>f\<close> over the elements of an
  array and over the property names of an object; an exception leaves the loop at once.
\<close>

type_synonym 'a conv = "((exn + 'a) \<times> cycle) option"

fun conv_elems ::
  "(hval \<Rightarrow> cycle \<Rightarrow> msgpack_object conv) \<Rightarrow> hval list \<Rightarrow> cycle \<Rightarrow> msgpack_object list conv"
where
  "conv_elems f [] mc = Some (Inr [], mc)"
| "conv_elems f (x # xs) mc =
     (case f x mc of
        None \<Rightarrow> None
      | Some (Inl e, mc1) \<Rightarrow> Some (Inl e, mc1)
      | Some (Inr n, mc1) \<Rightarrow>
          (case conv_elems f xs mc1 of
             None \<Rightarrow> None
           | Some (Inl e, mc2) \<Rightarrow> Some (Inl e, mc2)
           | Some (Inr ns, mc2) \<Rightarrow> Some (Inr (n # ns), mc2)))"

fun conv_props ::
  "(hval \<Rightarrow> cycle \<Rightarrow> msgpack_object conv) \<Rightarrow> (hval \<times> hval) list \<Rightarrow> hval list \<Rightarrow> cycle
     \<Rightarrow> (msgpack_object \<times> msgpack_object) list conv"
where
  "conv_props f ps [] mc = Some (Inr [], mc)"
| "conv_props f ps (k # ks) mc =
     (case f k mc of
        None \<Rightarrow> None
      | Some (Inl e, mc1) \<Rightarrow> Some (Inl e, mc1)
      | Some (Inr kn, mc1) \<Rightarrow>
          (case f (Get ps k) mc1 of
             None \<Rightarrow> None
           | Some (Inl e, mc2) \<Rightarrow> Some (Inl e, mc2)
           | Some (Inr vn, mc2) \<Rightarrow>
               (case conv_props f ps ks mc2 of
                  None \<Rightarrow> None
                | Some (Inl e, mc3) \<Rightarrow> Some (Inl e, mc3)
                | Some (Inr kvs, mc3) \<Rightarrow> Some (Inr ((kn, vn) # kvs), mc3))))"

fun v8_to_msgpack :: "nat \<Rightarrow> heap \<Rightarrow> hval \<Rightarrow> cycle \<Rightarrow> msgpack_object conv" where
  "v8_to_msgpack 0 h v mc = None"
| "v8_to_msgpack (Suc n) h Undefined mc = Some (Inr NIL, mc)"
| "v8_to_msgpack (Suc n) h Null mc = Some (Inr NIL, mc)"
| "v8_to_msgpack (Suc n) h (Bool b) mc = Some (Inr (BOOLEAN b), mc)"
| "v8_to_msgpack (Suc n) h (Number d) mc = Some (Inr (number_node d), mc)"
| "v8_to_msgpack (Suc n) h (Str s) mc = Some (Inr (RAW s), mc)"
| "v8_to_msgpack (Suc n) h (Ref a) mc =
     (case heap_get h a of
        None \<Rightarrow> None
      | Some (ArrayObj xs) \<Rightarrow>
          (case enter (Ref a) mc of
             Inl (e, mc1) \<Rightarrow> Some (Inl e, mc1)
           | Inr mc1 \<Rightarrow>
               (case conv_elems (v8_to_msgpack n h) xs mc1 of
                  None \<Rightarrow> None
                | Some (Inl e, mc2) \<Rightarrow> Some (Inl e, mc2)
                | Some (Inr ns, mc2) \<Rightarrow> Some (Inr (ARRAY ns), out mc2)))
      | Some (BufferObj bs) \<Rightarrow> Some (Inr (RAW bs), mc)
      | Some (PlainObj ps) \<Rightarrow>
          (case enter (Ref a) mc of
             Inl (e, mc1) \<Rightarrow> Some (Inl e, mc1)
           | Inr mc1 \<Rightarrow>
               (case conv_props (v8_to_msgpack n h) ps (GetPropertyNames ps) mc1 of
                  None \<Rightarrow> None
                | Some (Inl e, mc2) \<Rightarrow> Some (Inl e, mc2)
                | Some (Inr kvs, mc2) \<Rightarrow> Some (Inr (MAP kvs), out mc2))))"

section \<open>The wire format (\<^verbatim>\<open>msgpack_pack_object\<close>)\<close>

text \<open>The \<open>k\<close> low bytes of a number, most significant first.\<close>

fun be :: "nat \<Rightarrow> nat \<Rightarrow> bytes" where
  "be 0 n = []"
| "be (Suc k) n = word_of_nat (n div 256 ^ k) # be k n"

definition pack_uint64 :: "64 word \<Rightarrow> bytes" where
  "pack_uint64 u =
     (let n = unat u in
      if n < 2 ^ 7 then [word_of_nat n]
      else if n < 2 ^ 8 then 0xcc # be 1 n
      else if n < 2 ^ 16 then 0xcd # be 2 n
      else if n < 2 ^ 32 then 0xce # be 4 n
      else 0xcf # be 8 n)"

definition pack_int64 :: "64 word \<Rightarrow> bytes" where
  "pack_int64 i =
     (let d = sint i; n = unat i in
      if d < - (2 ^ 5) then
        (if d < - (2 ^ 15) then
           (if d < - (2 ^ 31) then 0xd3 # be 8 n else 0xd2 # be 4 n)
         else
           (if d < - (2 ^ 7) then 0xd1 # be 2 n else 0xd0 # be 1 n))
      else if d < 2 ^ 7 then [word_of_nat n]
      else if d < 2 ^ 8 then 0xcc # be 1 n
      else if d < 2 ^ 16 then 0xcd # be 2 n
      else if d < 2 ^ 32 then 0xce # be 4 n
      else 0xcf # be 8 n)"

definition pack_double :: "double \<Rightarrow> bytes" where
  "pack_double d = 0xcb # be 8 (unat d)"

definition pack_raw :: "nat \<Rightarrow> bytes" where
  "pack_raw n =
     (if n < 32 then [word_of_nat (0xa0 + n)]
      else if n < 2 ^ 16 then 0xda # be 2 n
      else 0xdb # be 4 n)"

definition pack_array :: "nat \<Rightarrow> bytes" where
  "pack_array n =
     (if n < 16 then [word_of_nat (0x90 + n)]
      else if n < 2 ^ 16 then 0xdc # be 2 n
      else 0xdd # be 4 n)"

definition pack_map :: "nat \<Rightarrow> bytes" where
  "pack_map n =
     (if n < 16 then [word_of_nat (0x80 + n)]
      else if n < 2 ^ 16 then 0xde # be 2 n
      else 0xdf # be 4 n)"

text \<open>
  Modelled from the spec: \<^verbatim>\<open>msgpack_pack_object\<close> belongs to the MessagePack C library,
  which is not part of the sources. The encoding is the wire format of the specification
  (section 6): nil, the two booleans, integers in the smallest form that holds the value,
  float64, raw with a length prefix, arrays and maps with a count prefix followed by their
  packed elements and pairs. Writing to the output buffer is taken to succeed.
\<close>

fun msgpack_pack_object :: "msgpack_object \<Rightarrow> bytes" where
  "msgpack_pack_object NIL = [0xc0]"
| "msgpack_pack_object (BOOLEAN b) = [if b then 0xc3 else 0xc2]"
| "msgpack_pack_object (POSITIVE_INTEGER u) = pack_uint64 u"
| "msgpack_pack_object (NEGATIVE_INTEGER i) = pack_int64 i"
| "msgpack_pack_object (DOUBLE d) = pack_double d"
| "msgpack_pack_object (RAW s) = pack_raw (length s) @ s"
| "msgpack_pack_object (ARRAY xs) =
     pack_array (length xs) @ concat (map msgpack_pack_object xs)"
| "msgpack_pack_object (MAP kvs) =
     pack_map (length kvs) @
     concat (map (\<lambda>(k, v). msgpack_pack_object k @ msgpack_pack_object v) kvs)"

section \<open>\<^verbatim>\<open>pack\<close>\<close>

text \<open>
  The loop of \<^verbatim>\<open>pack\<close> over \<open>i = 0 ..< args.Length()\<close>. Each round converts
  \<^verbatim>\<open>args[0]\<close> (the source indexes with the constant 0, not with \<open>i\<close>) and appends its
  encoding to the buffer \<open>sb\<close>. The result carries the guard as the call leaves it, which is
  what the destructor of \<^verbatim>\<open>MsgpackCycle\<close> asserts to be empty.
\<close>

function pack_loop :: "nat \<Rightarrow> heap \<Rightarrow> hval list \<Rightarrow> nat \<Rightarrow> bytes \<Rightarrow> cycle \<Rightarrow> bytes conv" where
  "pack_loop fuel h args i sb mc =
     (if i < length args then
        (case v8_to_msgpack fuel h (arg args 0) mc of
           None \<Rightarrow> None
         | Some (Inl e, mc1) \<Rightarrow> Some (Inl e, mc1)
         | Some (Inr mo, mc1) \<Rightarrow>
             pack_loop fuel h args (i + 1) (sb @ msgpack_pack_object mo) mc1)
      else Some (Inr sb, mc))"
  by pat_completeness auto
termination
  by (relation "measure (\<lambda>(fuel, h, args, i, sb, mc). length args - i)") auto

declare pack_loop.simps [simp del]

definition pack_run :: "nat \<Rightarrow> heap \<Rightarrow> hval list \<Rightarrow> bytes conv" where
  "pack_run fuel h args = pack_loop fuel h args 0 [] []"

text \<open>
  What the caller of \<^verbatim>\<open>pack\<close> sees. The guard \<^verbatim>\<open>mc\<close> is a local object of \<^verbatim>\<open>pack\<close>:
  when \<^verbatim>\<open>pack\<close> returns, with the buffer or after \<^verbatim>\<open>ThrowException\<close>, the destructor
  \<^verbatim>\<open>~MsgpackCycle\<close> runs \<^verbatim>\<open>assert(_objs.empty())\<close>. With a guard that is not empty
  the assertion fails and the process is aborted; otherwise the caller receives the bytes
  of the buffer or the exception.
\<close>

datatype failure = Throw exn | Abort

definition pack :: "nat \<Rightarrow> heap \<Rightarrow> hval list \<Rightarrow> (failure + bytes) option" where
  "pack fuel h args =
     (case pack_run fuel h args of
        None \<Rightarrow> None
      | Some (r, mc) \<Rightarrow>
          Some (if mc \<noteq> [] then Inl Abort
                else (case r of Inl e \<Rightarrow> Inl (Throw e) | Inr sb \<Rightarrow> Inr sb)))"

section \<open>Decoding\<close>

subsection \<open>The parser (\<^verbatim>\<open>msgpack_unpack\<close>)\<close>

text \<open>The number a big-endian byte string holds.\<close>

definition from_be :: "bytes \<Rightarrow> nat" where
  "from_be bs = foldl (\<lambda>a b. a * 256 + unat b) 0 bs"

datatype token = Scalar msgpack_object | ArrayHdr nat | MapHdr nat

text \<open>The outcome of reading from the input: more bytes are needed, the bytes are
  malformed, or something was read and the rest of the input follows.\<close>

datatype 'a step = NeedMore | Bad | Got 'a bytes

definition fixed :: "nat \<Rightarrow> (nat \<Rightarrow> token) \<Rightarrow> bytes \<Rightarrow> token step" where
  "fixed k f bs = (if length bs < k then NeedMore else Got (f (from_be (take k bs))) (drop k bs))"

definition raw_body :: "nat \<Rightarrow> bytes \<Rightarrow> token step" where
  "raw_body n bs = (if length bs < n then NeedMore else Got (Scalar (RAW (take n bs))) (drop n bs))"

definition raw_hdr :: "nat \<Rightarrow> bytes \<Rightarrow> token step" where
  "raw_hdr k bs = (if length bs < k then NeedMore else raw_body (from_be (take k bs)) (drop k bs))"

text \<open>A signed integer of \<open>w\<close> bits read as the unsigned number \<open>n\<close>: a non-negative
  value becomes a positive-integer node, a negative one is sign-extended to 64 bits.\<close>

definition int_node :: "nat \<Rightarrow> nat \<Rightarrow> token" where
  "int_node w n =
     (if n < 2 ^ (w - 1) then Scalar (POSITIVE_INTEGER (word_of_nat n))
      else Scalar (NEGATIVE_INTEGER (word_of_int (int n - 2 ^ w))))"

text \<open>How the bytes after a tag are read: a number of \<open>k\<close> bytes, a raw body of \<open>n\<close>
  bytes, a raw body after its length of \<open>k\<close> bytes, nothing (the tag is the whole token),
  or not at all (the byte is no tag of the format).\<close>

datatype reader =
    Fixed nat "nat \<Rightarrow> token"
  | RawBody nat
  | RawHdr nat
  | Immediate token
  | Invalid

definition classify :: "byte \<Rightarrow> reader" where
  "classify b =
     (let t = unat b in
      if t < 0x80 then Immediate (Scalar (POSITIVE_INTEGER (word_of_nat t)))
      else if t < 0x90 then Immediate (MapHdr (t - 0x80))
      else if t < 0xa0 then Immediate (ArrayHdr (t - 0x90))
      else if t < 0xc0 then RawBody (t - 0xa0)
      else if t = 0xc0 then Immediate (Scalar NIL)
      else if t = 0xc2 then Immediate (Scalar (BOOLEAN False))
      else if t = 0xc3 then Immediate (Scalar (BOOLEAN True))
      else if t = 0xcb then Fixed 8 (\<lambda>n. Scalar (DOUBLE (word_of_nat n)))
      else if t = 0xcc then Fixed 1 (\<lambda>n. Scalar (POSITIVE_INTEGER (word_of_nat n)))
      else if t = 0xcd then Fixed 2 (\<lambda>n. Scalar (POSITIVE_INTEGER (word_of_nat n)))
      else if t = 0xce then Fixed 4 (\<lambda>n. Scalar (POSITIVE_INTEGER (word_of_nat n)))
      else if t = 0xcf then Fixed 8 (\<lambda>n. Scalar (POSITIVE_INTEGER (word_of_nat n)))
      else if t = 0xd0 then Fixed 1 (int_node 8)
      else if t = 0xd1 then Fixed 2 (int_node 16)
      else if t = 0xd2 then Fixed 4 (int_node 32)
      else if t = 0xd3 then Fixed 8 (int_node 64)
      else if t = 0xda then RawHdr 2
      else if t = 0xdb then RawHdr 4
      else if t = 0xdc then Fixed 2 ArrayHdr
      else if t = 0xdd then Fixed 4 ArrayHdr
      else if t = 0xde then Fixed 2 MapHdr
      else if t = 0xdf then Fixed 4 MapHdr
      else if 0xe0 \<le> t then Immediate (int_node 8 t)
      else Invalid)"

fun run_reader :: "reader \<Rightarrow> bytes \<Rightarrow> token step" where
  "run_reader (Fixed k f) bs = fixed k f bs"
| "run_reader (RawBody n) bs = raw_body n bs"
| "run_reader (RawHdr k) bs = raw_hdr k bs"
| "run_reader (Immediate tok) bs = Got tok bs"
| "run_reader Invalid bs = Bad"

definition read_token :: "bytes \<Rightarrow> token step" where
  "read_token inp = (case inp of [] \<Rightarrow> NeedMore | b # bs \<Rightarrow> run_reader (classify b) bs)"

text \<open>The containers being filled: the number of elements (pairs) still missing, those
  read so far (latest first), and for a map the key waiting for its value.\<close>

datatype frame =
    AFrame nat "msgpack_object list"
  | MFrame nat "(msgpack_object \<times> msgpack_object) list" "msgpack_object option"

text \<open>A complete value goes to the innermost open container; a container that becomes
  full is itself a complete value. With no container open, the value is the result.\<close>

fun push_value :: "msgpack_object \<Rightarrow> frame list \<Rightarrow> msgpack_object + frame list" where
  "push_value v [] = Inl v"
| "push_value v (AFrame c acc # stk) =
     (if c \<le> 1 then push_value (ARRAY (rev (v # acc))) stk
      else Inr (AFrame (c - 1) (v # acc) # stk))"
| "push_value v (MFrame c acc None # stk) = Inr (MFrame c acc (Some v) # stk)"
| "push_value v (MFrame c acc (Some k) # stk) =
     (if c \<le> 1 then push_value (MAP (rev ((k, v) # acc))) stk
      else Inr (MFrame (c - 1) ((k, v) # acc) None # stk))"

fun open_token :: "token \<Rightarrow> frame list \<Rightarrow> msgpack_object + frame list" where
  "open_token (Scalar v) stk = push_value v stk"
| "open_token (ArrayHdr n) stk =
     (if n = 0 then push_value (ARRAY []) stk else Inr (AFrame n [] # stk))"
| "open_token (MapHdr n) stk =
     (if n = 0 then push_value (MAP []) stk else Inr (MFrame n [] None # stk))"

lemma run_reader_shorter: "run_reader r bs = Got tok rest \<Longrightarrow> length rest \<le> length bs"
  by (cases r) (auto simp: fixed_def raw_body_def raw_hdr_def split: if_splits)

lemma read_token_shorter: "read_token inp = Got tok rest \<Longrightarrow> length rest < length inp"
  by (cases inp) (auto simp: read_token_def dest: run_reader_shorter)

function exec :: "frame list \<Rightarrow> bytes \<Rightarrow> msgpack_object step" where
  "exec stk inp =
     (case read_token inp of
        NeedMore \<Rightarrow> NeedMore
      | Bad \<Rightarrow> Bad
      | Got tok rest \<Rightarrow>
          (case open_token tok stk of
             Inl v \<Rightarrow> Got v rest
           | Inr stk' \<Rightarrow> exec stk' rest))"
  by pat_completeness auto
termination
  by (relation "measure (\<lambda>(stk, inp). length inp)") (auto dest: read_token_shorter)

declare exec.simps [simp del]

datatype unpack_return =
    UNPACK_SUCCESS msgpack_object nat
  | UNPACK_EXTRA_BYTES msgpack_object nat
  | UNPACK_CONTINUE
  | UNPACK_PARSE_ERROR

text \<open>
  Modelled from the spec: \<^verbatim>\<open>msgpack_unpack\<close> belongs to the MessagePack C library,
  which is not part of the sources. It parses one object of the wire format of the
  specification (section 6) from offset 0. It reports the object and the offset reached
  (with or without bytes left over), that the buffer ends before the object is complete, or
  that a byte is no type tag of the format.
\<close>

definition msgpack_unpack :: "bytes \<Rightarrow> unpack_return" where
  "msgpack_unpack data =
     (case exec [] data of
        NeedMore \<Rightarrow> UNPACK_CONTINUE
      | Bad \<Rightarrow> UNPACK_PARSE_ERROR
      | Got mo rest \<Rightarrow>
          (let off = length data - length rest in
           if off < length data then UNPACK_EXTRA_BYTES mo off else UNPACK_SUCCESS mo off))"

subsection \<open>The values \<^verbatim>\<open>msgpack_to_v8\<close> builds\<close>

text \<open>
  \<^verbatim>\<open>msgpack_to_v8\<close> builds every array and object afresh, so its result shares nothing
  and is modelled as a tree of values. As for the host values above, a string is
  identified with the bytes of its UTF-8 encoding. An object is the finite map from the
  names of its own properties to their values.
\<close>

datatype jsval =
    JUndefined
  | JNull
  | JBool bool
  | JNumber double
  | JString bytes
  | JArray "jsval list"
  | JObject "(bytes, jsval) fmap"

text \<open>The bytes of a string of ASCII characters.\<close>

definition ascii :: "string \<Rightarrow> bytes" where
  "ascii s = map (\<lambda>c. word_of_nat (of_char c)) s"

subsection \<open>\<^verbatim>\<open>String::New\<close>\<close>

text \<open>
  \<^verbatim>\<open>String::New(ptr, size)\<close> decodes the bytes as UTF-8. V8's decoder reads a character
  of one to four bytes where the lead byte, the continuation bytes and the range of the
  character (above the range of the shorter forms) fit, and otherwise yields the
  replacement character U+FFFD and moves on by one byte. In terms of the UTF-8 encoding
  of the resulting string: a sequence that is read stays, and a byte that starts no such
  sequence becomes \<open>ef bf bd\<close>. The length of the sequence starting with byte \<open>b\<close>
  followed by \<open>bs\<close> is given by \<open>utf8_len\<close>, 0 when there is none; a four-byte sequence
  above U+10FFFF, which is no character, counts as none.
\<close>

definition cont :: "byte \<Rightarrow> bool" where
  "cont b = (0x80 \<le> unat b \<and> unat b < 0xc0)"

definition utf8_len :: "byte \<Rightarrow> bytes \<Rightarrow> nat" where
  "utf8_len b bs =
     (let t = unat b; u = unat (hd bs) in
      if t < 0x80 then 1
      else if 0xc2 \<le> t \<and> t < 0xe0 \<and> 1 \<le> length bs \<and> list_all cont (take 1 bs) then 2
      else if 0xe0 \<le> t \<and> t < 0xf0 \<and> 2 \<le> length bs \<and> list_all cont (take 2 bs) \<and>
              (0xe0 < t \<or> 0xa0 \<le> u) then 3
      else if 0xf0 \<le> t \<and> t < 0xf5 \<and> 3 \<le> length bs \<and> list_all cont (take 3 bs) \<and>
              (0xf0 < t \<or> 0x90 \<le> u) \<and> (t < 0xf4 \<or> u < 0x90) then 4
      else 0)"

function String_New :: "bytes \<Rightarrow> bytes" where
  "String_New [] = []"
| "String_New (b # bs) =
     (if utf8_len b bs = 0 then [0xef, 0xbf, 0xbd] @ String_New bs
      else b # take (utf8_len b bs - 1) bs @ String_New (drop (utf8_len b bs - 1) bs))"
  by pat_completeness auto
termination
  by (relation "measure length") auto

subsection \<open>\<^verbatim>\<open>ToString\<close> of a number\<close>

text \<open>
  A property key that is a number is turned into a name by \<open>ToString\<close> (ECMAScript 5,
  section 9.8.1): among the decimal numbers \<open>s * 10 ^ (n - k)\<close>, with \<open>s\<close> of \<open>k\<close> digits,
  that are read back as the double, the one with the fewest digits and then the nearest
  (an even \<open>s\<close> on a tie) is written out, positionally when \<open>-6 < n \<le> 21\<close> and
  with an exponent otherwise.

  A positive finite double is \<open>d_sig * 2 ^ (d_scale - 1075)\<close>. In units of a quarter of
  its last place, \<open>2 ^ (d_scale - 1077)\<close>, the double is \<open>4 * d_sig\<close>, the midpoint to the
  next double is \<open>4 * d_sig + 2\<close>, and the midpoint to the previous one is \<open>4 * d_sig - 2\<close>,
  or \<open>4 * d_sig - 1\<close> when the previous double lies in the binade below. A decimal is read
  back as the double when it lies between the midpoints; a midpoint itself is read as the
  double when the mantissa is even. The unit is the fraction \<open>unit_num / unit_den\<close>, and
  \<open>10 ^ q\<close> is \<open>ten_num q / ten_den q\<close>.
\<close>

definition digit :: "nat \<Rightarrow> byte" where
  "digit n = word_of_nat (48 + n)"

function dec :: "nat \<Rightarrow> bytes" where
  "dec n = (if n < 10 then [digit n] else dec (n div 10) @ [digit (n mod 10)])"
  by pat_completeness auto
termination
  by (relation "measure id") auto

declare dec.simps [simp del]

definition unit_num :: "double \<Rightarrow> nat" where
  "unit_num d = 2 ^ (d_scale d - 1077)"

definition unit_den :: "double \<Rightarrow> nat" where
  "unit_den d = 2 ^ (1077 - d_scale d)"

definition ten_num :: "int \<Rightarrow> nat" where
  "ten_num q = 10 ^ nat q"

definition ten_den :: "int \<Rightarrow> nat" where
  "ten_den q = 10 ^ nat (- q)"

definition mid_below :: "double \<Rightarrow> nat" where
  "mid_below d = (if d_man d = 0 \<and> 1 < d_exp d then 4 * d_sig d - 1 else 4 * d_sig d - 2)"

definition mid_above :: "double \<Rightarrow> nat" where
  "mid_above d = 4 * d_sig d + 2"

text \<open>The decimal \<open>s * 10 ^ q\<close> is read back as the double \<open>d\<close>.\<close>

definition reads_as :: "double \<Rightarrow> nat \<Rightarrow> int \<Rightarrow> bool" where
  "reads_as d s q =
     (let x = s * ten_num q * unit_den d;
          lo = mid_below d * unit_num d * ten_den q;
          hi = mid_above d * unit_num d * ten_den q
      in if even (d_man d) then lo \<le> x \<and> x \<le> hi else lo < x \<and> x < hi)"

text \<open>The distance of \<open>s * 10 ^ q\<close> from the double, in units of
  \<open>unit_num / (unit_den * ten_den q)\<close>.\<close>

definition dist :: "double \<Rightarrow> nat \<Rightarrow> int \<Rightarrow> nat" where
  "dist d s q =
     (let x = s * ten_num q * unit_den d; m = 4 * d_sig d * unit_num d * ten_den q
      in if x \<le> m then m - x else x - m)"

text \<open>The number of zeros after the decimal point of the fraction \<open>a / b\<close> below 1, and
  the least \<open>n\<close> with \<open>d < 10 ^ n\<close> for a positive finite double \<open>d\<close>.\<close>

function zeros :: "nat \<Rightarrow> nat \<Rightarrow> nat" where
  "zeros a b = (if a = 0 \<or> b \<le> a * 10 then 0 else Suc (zeros (a * 10) b))"
  by pat_completeness auto
termination
  by (relation "measure (\<lambda>(a, b). b - a)") auto

declare zeros.simps [simp del]

definition dec_exp :: "double \<Rightarrow> int" where
  "dec_exp d =
     (let a = 4 * d_sig d * unit_num d; b = unit_den d
      in if b \<le> a then int (length (dec (a div b))) else - int (zeros a b))"

text \<open>The digits \<open>s\<close> and the exponent \<open>n\<close> for \<open>k\<close> digits, when a decimal of \<open>k\<close> digits
  is read back as the double: the decimals next to the double are the one below,
  \<open>s0 * 10 ^ q\<close>, and the one above, \<open>(s0 + 1) * 10 ^ q\<close>.\<close>

definition candidate :: "double \<Rightarrow> nat \<Rightarrow> (nat \<times> int) option" where
  "candidate d k =
     (let q = dec_exp d - int k;
          s0 = (4 * d_sig d * unit_num d * ten_den q) div (unit_den d * ten_num q);
          below = reads_as d s0 q;
          above = reads_as d (s0 + 1) q;
          up = (if s0 + 1 = 10 ^ k then (10 ^ (k - 1), q + 1 + int k) else (s0 + 1, q + int k))
      in if below \<and> above then
           (if dist d s0 q < dist d (s0 + 1) q \<or> (dist d s0 q = dist d (s0 + 1) q \<and> even s0)
            then Some (s0, q + int k) else Some up)
         else if below then Some (s0, q + int k)
         else if above then Some up
         else None)"

text \<open>The fewest digits: \<open>k\<close> counts up from 1; seventeen digits always suffice.\<close>

function shortest :: "double \<Rightarrow> nat \<Rightarrow> nat \<times> int" where
  "shortest d k =
     (case candidate d k of
        Some c \<Rightarrow> c
      | None \<Rightarrow> if 17 \<le> k then (0, 0) else shortest d (Suc k))"
  by pat_completeness auto
termination
  by (relation "measure (\<lambda>(d, k). 17 - k)") auto

declare shortest.simps [simp del]

text \<open>The digits \<open>ds\<close> of \<open>s\<close> written out for the exponent \<open>n\<close>.\<close>

definition write_digits :: "bytes \<Rightarrow> int \<Rightarrow> bytes" where
  "write_digits ds n =
     (let k = int (length ds) in
      if k \<le> n \<and> n \<le> 21 then ds @ replicate (nat (n - k)) (digit 0)
      else if 0 < n \<and> n \<le> 21 then take (nat n) ds @ ascii ''.'' @ drop (nat n) ds
      else if - 6 < n \<and> n \<le> 0 then ascii ''0.'' @ replicate (nat (- n)) (digit 0) @ ds
      else
        (if k = 1 then ds else take 1 ds @ ascii ''.'' @ drop 1 ds) @
        ascii (if n - 1 < 0 then ''e-'' else ''e+'') @ dec (nat \<bar>n - 1\<bar>))"

definition Number_ToString :: "double \<Rightarrow> bytes" where
  "Number_ToString d =
     (if is_nan d then ascii ''NaN''
      else if is_zero d then ascii ''0''
      else
        (if d_neg d then ascii ''-'' else []) @
        (if is_inf d then ascii ''Infinity''
         else (case shortest d 1 of (s, n) \<Rightarrow> write_digits (dec s) n)))"

subsection \<open>\<^verbatim>\<open>Object::Set\<close>\<close>

text \<open>
  \<^verbatim>\<open>o->Set(key, value)\<close> turns the key into a property name with \<open>ToString\<close> and
  assigns the property: keys with the same name are one property, and the last value
  assigned stays. The name of an array is the names of its elements joined by commas,
  with nothing for a null element; the name of an object is \<^verbatim>\<open>[object Object]\<close>. The
  name \<^verbatim>\<open>__proto__\<close> is no property: assigning to it sets the prototype of the object,
  or does nothing when the value is neither an object nor null, and the object gets no
  property of its own.
\<close>

fun join :: "bytes list \<Rightarrow> bytes" where
  "join [] = []"
| "join [x] = x"
| "join (x # y # ys) = x @ ascii '','' @ join (y # ys)"

fun ToString :: "jsval \<Rightarrow> bytes" where
  "ToString JUndefined = ascii ''undefined''"
| "ToString JNull = ascii ''null''"
| "ToString (JBool b) = ascii (if b then ''true'' else ''false'')"
| "ToString (JNumber d) = Number_ToString d"
| "ToString (JString s) = s"
| "ToString (JArray xs) =
     join (map (\<lambda>x. if x = JNull \<or> x = JUndefined then [] else ToString x) xs)"
| "ToString (JObject ob) = ascii ''[object Object]''"

definition Object_Set :: "(bytes, jsval) fmap \<Rightarrow> jsval \<Rightarrow> jsval \<Rightarrow> (bytes, jsval) fmap" where
  "Object_Set ob k v =
     (if ToString k = ascii ''__proto__'' then ob else fmupd (ToString k) v ob)"

subsection \<open>\<^verbatim>\<open>msgpack_to_v8\<close>\<close>

fun msgpack_to_v8 :: "msgpack_object \<Rightarrow> jsval" where
  "msgpack_to_v8 NIL = JNull"
| "msgpack_to_v8 (BOOLEAN b) = JBool b"
| "msgpack_to_v8 (POSITIVE_INTEGER u) = JNumber (Integer_NewFromUnsigned (ucast u))"
| "msgpack_to_v8 (NEGATIVE_INTEGER i) = JNumber (Integer_New (ucast i))"
| "msgpack_to_v8 (DOUBLE d) = JNumber d"
| "msgpack_to_v8 (ARRAY xs) = JArray (map msgpack_to_v8 xs)"
| "msgpack_to_v8 (RAW s) = JString (String_New s)"
| "msgpack_to_v8 (MAP kvs) =
     JObject (foldl (\<lambda>ob (k, v). Object_Set ob (msgpack_to_v8 k) (msgpack_to_v8 v)) fmempty kvs)"

subsection \<open>\<^verbatim>\<open>unpack\<close>\<close>

text \<open>
  The state of \<^verbatim>\<open>unpack\<close> is the property \<^verbatim>\<open>bytes_remaining\<close> of the function object:
  \<open>None\<close> while it has never been set. The call returns the value or the exception, and
  the property as the call leaves it. An incomplete buffer yields undefined.
\<close>

definition unpack :: "heap \<Rightarrow> hval list \<Rightarrow> double option \<Rightarrow> (exn + jsval) \<times> double option" where
  "unpack h args bytes_remaining =
     (if \<not> Buffer_HasInstance h (arg args 0)
      then (Inl (TypeError ''First argument must be a Buffer''), bytes_remaining)
      else
        (let buf = Buffer_Data h (arg args 0) in
         case msgpack_unpack buf of
           UNPACK_EXTRA_BYTES mo off \<Rightarrow>
             (Inr (msgpack_to_v8 mo), Some (Integer_New (word_of_nat (length buf - off))))
         | UNPACK_SUCCESS mo off \<Rightarrow>
             (Inr (msgpack_to_v8 mo), Some (Integer_New (word_of_nat (length buf - off))))
         | UNPACK_CONTINUE \<Rightarrow> (Inr JUndefined, bytes_remaining)
         | UNPACK_PARSE_ERROR \<Rightarrow> (Inl (Error ''Error de-serializing object''), bytes_remaining)))"

section \<open>Heaps, unfoldings and the node of a value\<close>

text \<open>
  The notions the claims about \<^verbatim>\<open>pack\<close> are stated with: a heap is well formed when
  every handle stored in it points into it; a value \<open>v\<close> of a heap \<open>h\<close> denotes the tree
  \<open>t\<close> when \<open>t\<close> is its finite unfolding (so a value on a cycle denotes nothing, and a
  shared object is unfolded wherever it occurs).
\<close>

text \<open>The values \<^verbatim>\<open>v8_to_msgpack\<close> recurses on for an object of the heap.\<close>

fun children :: "hobj \<Rightarrow> hval list" where
  "children (ArrayObj xs) = xs"
| "children (BufferObj bs) = []"
| "children (PlainObj ps) = concat (map (\<lambda>k. [k, Get ps k]) (GetPropertyNames ps))"

definition valid_handle :: "heap \<Rightarrow> hval \<Rightarrow> bool" where
  "valid_handle h v = (case v of Ref a \<Rightarrow> a < length h | _ \<Rightarrow> True)"

definition wf_heap :: "heap \<Rightarrow> bool" where
  "wf_heap h = list_all (\<lambda>ob. list_all (valid_handle h) (children ob)) h"

text \<open>The finite unfolding of a value: every handle is replaced by the content of the
  object it points to.\<close>

datatype utree =
    TUndefined
  | TNull
  | TBool bool
  | TNumber double
  | TString bytes
  | TBuffer bytes
  | TArray "utree list"
  | TObject "(utree \<times> utree) list"

inductive denotes :: "heap \<Rightarrow> hval \<Rightarrow> utree \<Rightarrow> bool" for h :: heap where
  d_undefined: "denotes h Undefined TUndefined"
| d_null: "denotes h Null TNull"
| d_bool: "denotes h (Bool b) (TBool b)"
| d_number: "denotes h (Number d) (TNumber d)"
| d_string: "denotes h (Str s) (TString s)"
| d_buffer: "heap_get h a = Some (BufferObj bs) \<Longrightarrow> denotes h (Ref a) (TBuffer bs)"
| d_array: "heap_get h a = Some (ArrayObj xs) \<Longrightarrow> list_all2 (denotes h) xs ts \<Longrightarrow>
     denotes h (Ref a) (TArray ts)"
| d_object: "heap_get h a = Some (PlainObj ps) \<Longrightarrow>
     list_all2 (\<lambda>k kv. denotes h k (fst kv) \<and> denotes h (Get ps k) (snd kv))
       (GetPropertyNames ps) kvs \<Longrightarrow>
     denotes h (Ref a) (TObject kvs)"

fun tsize :: "utree \<Rightarrow> nat" where
  "tsize (TArray ts) = Suc (sum_list (map tsize ts))"
| "tsize (TObject kvs) = Suc (sum_list (map (\<lambda>(k, v). tsize k + tsize v) kvs))"
| "tsize _ = 0"

fun node_of :: "utree \<Rightarrow> msgpack_object" where
  "node_of TUndefined = NIL"
| "node_of TNull = NIL"
| "node_of (TBool b) = BOOLEAN b"
| "node_of (TNumber d) = number_node d"
| "node_of (TString s) = RAW s"
| "node_of (TBuffer s) = RAW s"
| "node_of (TArray ts) = ARRAY (map node_of ts)"
| "node_of (TObject kvs) = MAP (map (\<lambda>(k, v). (node_of k, node_of v)) kvs)"

text \<open>The elements of a list taken two by two.\<close>

fun pairs :: "'a list \<Rightarrow> ('a \<times> 'a) list" where
  "pairs (a # b # xs) = (a, b) # pairs xs"
| "pairs xs = []"

section \<open>Notions used to state the parser's verdicts\<close>

text \<open>The node the parser yields for the encoding of a node: the same node, except that
  a non-negative integer stored as signed is written in an unsigned form and so read back
  as a positive integer.\<close>

fun canon :: "msgpack_object \<Rightarrow> msgpack_object" where
  "canon (NEGATIVE_INTEGER i) = (if 0 \<le> sint i then POSITIVE_INTEGER i else NEGATIVE_INTEGER i)"
| "canon (ARRAY xs) = ARRAY (map canon xs)"
| "canon (MAP kvs) = MAP (map (\<lambda>(k, v). (canon k, canon v)) kvs)"
| "canon mo = mo"

text \<open>The lengths and counts of a node fit the 32-bit size fields of the format.\<close>

fun sizes_ok :: "msgpack_object \<Rightarrow> bool" where
  "sizes_ok (RAW s) = (length s < 2 ^ 32)"
| "sizes_ok (ARRAY xs) = (length xs < 2 ^ 32 \<and> list_all sizes_ok xs)"
| "sizes_ok (MAP kvs) = (length kvs < 2 ^ 32 \<and> list_all (\<lambda>(k, v). sizes_ok k \<and> sizes_ok v) kvs)"
| "sizes_ok mo = True"

definition deliver :: "msgpack_object \<Rightarrow> frame list \<Rightarrow> bytes \<Rightarrow> msgpack_object step" where
  "deliver v stk rest = (case push_value v stk of Inl w \<Rightarrow> Got w rest | Inr stk' \<Rightarrow> exec stk' rest)"

text \<open>The number of values an open container still takes, counted so that it falls with
  every value pushed.\<close>

fun pending :: "frame \<Rightarrow> nat" where
  "pending (AFrame c acc) = max c 1"
| "pending (MFrame c acc None) = 2 * max c 1"
| "pending (MFrame c acc (Some k)) = 2 * max c 1 - 1"

text \<open>A buffer holds a complete object when the parser reads one object and no byte is
  left; it starts with an object when the parser reads one object from it.\<close>

definition complete_object :: "bytes \<Rightarrow> bool" where
  "complete_object bs = (case msgpack_unpack bs of UNPACK_SUCCESS mo off \<Rightarrow> True | _ \<Rightarrow> False)"

definition starts_with_object :: "bytes \<Rightarrow> bool" where
  "starts_with_object bs =
     (case msgpack_unpack bs of
        UNPACK_SUCCESS mo off \<Rightarrow> True | UNPACK_EXTRA_BYTES mo off \<Rightarrow> True | _ \<Rightarrow> False)"

section \<open>The value of a node\<close>





section \<open>Evaluation helpers\<close>

lemmas double_defs =
  d_eq_def d_trunc_def d_exp_def d_man_def is_nan_def is_inf_def is_zero_def is_finite_def
  d_gt0_def d_neg_def d_to_u64_def d_to_i64_def cvttsd2si_def d_mag_def d_sig_def d_scale_def

lemmas pack_defs =
  pack_def pack_run_def pack_loop.simps arg_def heap_get_def enter_def out_def
  GetPropertyNames_def Get_def pack_uint64_def pack_int64_def pack_raw_def pack_array_def
  pack_map_def pack_double_def

lemmas unpack_defs =
  unpack_def arg_def heap_get_def Buffer_HasInstance_def Buffer_Data_def msgpack_unpack_def
  exec.simps read_token_def classify_def fixed_def raw_body_def raw_hdr_def int_node_def
  from_be_def

lemma replicate_numeral: "replicate (numeral k) x = x # replicate (pred_numeral k) x"
  by (simp add: numeral_eq_Suc)

lemmas name_defs =
  Number_ToString_def shortest.simps candidate_def reads_as_def dist_def dec_exp_def
  zeros.simps dec.simps unit_num_def unit_den_def ten_num_def ten_den_def mid_below_def
  mid_above_def write_digits_def ascii_def digit_def Let_def replicate_numeral Object_Set_def
  utf8_len_def cont_def

text \<open>\<open>ToString\<close> on some numbers: 1.5, 0.1, 100, \<^verbatim>\<open>1e21\<close>, \<^verbatim>\<open>1e-7\<close>, -2.5 and
  \<open>2 ^ 32\<close>.\<close>

lemma Number_ToString_examples:
  "Number_ToString 0x3FF8000000000000 = ascii ''1.5''"
  "Number_ToString 0x3FB999999999999A = ascii ''0.1''"
  "Number_ToString 0x4059000000000000 = ascii ''100''"
  "Number_ToString 0x444B1AE4D6E2EF50 = ascii ''1e+21''"
  "Number_ToString 0x3E7AD7F29ABCAF48 = ascii ''1e-7''"
  "Number_ToString 0xC004000000000000 = ascii ''-2.5''"
  "Number_ToString 0x41F0000000000000 = ascii ''4294967296''"
  by (simp_all add: name_defs double_defs)

section \<open>Properties of the double operations\<close>

lemma msb_bounds: "0 < n \<Longrightarrow> 2 ^ msb n \<le> n \<and> n < 2 ^ Suc (msb n)"
proof (induction n rule: msb.induct)
  case (1 n)
  show ?case
  proof (cases "n < 2")
    case True
    with 1 have "n = 1" by simp
    then show ?thesis by (simp add: msb.simps)
  next
    case False
    then have "0 < n div 2" by simp
    with 1 False have ih: "2 ^ msb (n div 2) \<le> n div 2 \<and> n div 2 < 2 ^ Suc (msb (n div 2))"
      by simp
    have m: "msb n = Suc (msb (n div 2))" using False by (subst msb.simps) simp
    from ih show ?thesis unfolding m by (simp; linarith)
  qed
qed

lemma msb_unique: "2 ^ k \<le> n \<Longrightarrow> n < 2 ^ Suc k \<Longrightarrow> msb n = k"
proof -
  assume a: "2 ^ k \<le> n" "n < 2 ^ Suc k"
  then have pos: "0 < n" by (metis gr0I not_less zero_less_numeral zero_less_power less_le_trans leD)
  from msb_bounds [OF pos] have b: "2 ^ msb n \<le> n" "n < 2 ^ Suc (msb n)" by simp_all
  have "k < Suc (msb n)" using a(1) b(2) by (metis le_less_trans one_less_numeral_iff power_strict_increasing_iff semiring_norm(76))
  moreover have "msb n < Suc k" using a(2) b(1) by (metis le_less_trans one_less_numeral_iff power_strict_increasing_iff semiring_norm(76))
  ultimately show ?thesis by simp
qed

lemma unat_double: "W < 2 ^ 64 \<Longrightarrow> unat (word_of_nat W :: 64 word) = W"
  by (simp add: unat_of_nat)

lemma fields_nat:
  assumes "e < 2048" "m < 2 ^ 52"
  shows "((e * 2 ^ 52 + m) div 2 ^ 52) mod 2 ^ 11 = e" "(e * 2 ^ 52 + m) mod 2 ^ 52 = (m::nat)"
    "e * 2 ^ 52 + m < 2 ^ 63"
  using assms by simp_all

lemma fields_pos:
  assumes "e < 2048" "m < 2 ^ 52"
  shows "d_exp (word_of_nat (e * 2 ^ 52 + m)) = e"
    "d_man (word_of_nat (e * 2 ^ 52 + m)) = m"
    "\<not> d_neg (word_of_nat (e * 2 ^ 52 + m))"
proof -
  have lt: "e * 2 ^ 52 + m < 2 ^ 64" using fields_nat(3) [OF assms] by simp
  have u: "unat (word_of_nat (e * 2 ^ 52 + m) :: 64 word) = e * 2 ^ 52 + m"
    by (rule unat_double [OF lt])
  show "d_exp (word_of_nat (e * 2 ^ 52 + m)) = e"
    unfolding d_exp_def u by (rule fields_nat(1) [OF assms])
  show "d_man (word_of_nat (e * 2 ^ 52 + m)) = m"
    unfolding d_man_def u by (rule fields_nat(2) [OF assms])
  show "\<not> d_neg (word_of_nat (e * 2 ^ 52 + m))"
    unfolding d_neg_def u using fields_nat(3) [OF assms] by simp
qed


lemma fields_neg:
  assumes "e < 2048" "m < 2 ^ 52"
  shows "d_exp (word_of_nat (2 ^ 63) + word_of_nat (e * 2 ^ 52 + m)) = e"
    "d_man (word_of_nat (2 ^ 63) + word_of_nat (e * 2 ^ 52 + m)) = m"
    "d_neg (word_of_nat (2 ^ 63) + word_of_nat (e * 2 ^ 52 + m))"
proof -
  have lt: "e * 2 ^ 52 + m < 2 ^ 63" by (rule fields_nat(3) [OF assms])
  have "word_of_nat (2 ^ 63) + word_of_nat (e * 2 ^ 52 + m) =
      (word_of_nat (2 ^ 63 + (e * 2 ^ 52 + m)) :: 64 word)" by simp
  moreover have "unat (word_of_nat (2 ^ 63 + (e * 2 ^ 52 + m)) :: 64 word) =
      2 ^ 63 + (e * 2 ^ 52 + m)"
    using lt by (intro unat_double) simp
  ultimately have u: "unat (word_of_nat (2 ^ 63) + word_of_nat (e * 2 ^ 52 + m) :: 64 word) =
      2 ^ 63 + (e * 2 ^ 52 + m)" by simp
  have dv: "(2 ^ 63 + (e * 2 ^ 52 + m)) div 2 ^ 52 = 2048 + e"
    using assms(2) by simp
  have "(2::nat) ^ 63 + (e * 2 ^ 52 + m) = m + (2048 + e) * 2 ^ 52" by simp
  then have "(2 ^ 63 + (e * 2 ^ 52 + m)) mod 2 ^ 52 = (m + (2048 + e) * 2 ^ 52) mod 2 ^ 52"
    by presburger
  also have "\<dots> = m mod 2 ^ 52" by (rule mod_mult_self1)
  also have "\<dots> = m" using assms(2) by simp
  finally have md: "(2 ^ 63 + (e * 2 ^ 52 + m)) mod 2 ^ 52 = m" .
  show "d_exp (word_of_nat (2 ^ 63) + word_of_nat (e * 2 ^ 52 + m)) = e"
    unfolding d_exp_def u dv using assms(1) by simp
  show "d_man (word_of_nat (2 ^ 63) + word_of_nat (e * 2 ^ 52 + m)) = m"
    unfolding d_man_def u md ..
  show "d_neg (word_of_nat (2 ^ 63) + word_of_nat (e * 2 ^ 52 + m))"
    unfolding d_neg_def u by simp
qed

text \<open>The exponent and mantissa that \<open>nat_to_double\<close> assembles.\<close>

lemma nat_to_double_parts:
  assumes "0 < n" "n < 2 ^ 53"
  shows "msb n \<le> 52" "2 ^ 52 \<le> n * 2 ^ (52 - msb n)" "n * 2 ^ (52 - msb n) < 2 ^ 53"
proof -
  from msb_bounds [OF assms(1)] have b: "2 ^ msb n \<le> n" "n < 2 ^ Suc (msb n)" by simp_all
  show k: "msb n \<le> 52"
  proof (rule ccontr)
    assume "\<not> msb n \<le> 52"
    then have "53 \<le> msb n" by simp
    then have "(2::nat) ^ 53 \<le> 2 ^ msb n" by (intro power_increasing) simp_all
    with b(1) assms(2) show False by simp
  qed
  have e: "(2::nat) ^ msb n * 2 ^ (52 - msb n) = 2 ^ 52"
    using k by (simp flip: power_add)
  have "2 ^ msb n * 2 ^ (52 - msb n) \<le> n * 2 ^ (52 - msb n)"
    using b(1) by (intro mult_le_mono1)
  then show "2 ^ 52 \<le> n * 2 ^ (52 - msb n)" unfolding e .
  have "n * 2 ^ (52 - msb n) < 2 ^ Suc (msb n) * 2 ^ (52 - msb n)"
    using b(2) by (intro mult_strict_right_mono) simp_all
  also have "\<dots> = 2 ^ 53" using e by simp
  finally show "n * 2 ^ (52 - msb n) < 2 ^ 53" .
qed

lemma nat_to_double_fields:
  assumes "0 < n" "n < 2 ^ 53"
  shows "d_exp (nat_to_double n) = 1023 + msb n"
    "d_man (nat_to_double n) = n * 2 ^ (52 - msb n) - 2 ^ 52"
    "\<not> d_neg (nat_to_double n)"
proof -
  note p = nat_to_double_parts [OF assms]
  have e: "1023 + msb n < 2048" using p(1) by simp
  have m: "n * 2 ^ (52 - msb n) - 2 ^ 52 < 2 ^ 52" using p(3) by simp
  have d: "nat_to_double n =
      word_of_nat ((1023 + msb n) * 2 ^ 52 + (n * 2 ^ (52 - msb n) - 2 ^ 52))"
    using assms(1) by (simp add: nat_to_double_def)
  show "d_exp (nat_to_double n) = 1023 + msb n" unfolding d by (rule fields_pos(1) [OF e m])
  show "d_man (nat_to_double n) = n * 2 ^ (52 - msb n) - 2 ^ 52"
    unfolding d by (rule fields_pos(2) [OF e m])
  show "\<not> d_neg (nat_to_double n)" unfolding d by (rule fields_pos(3) [OF e m])
qed

lemma nat_to_double_sig:
  assumes "0 < n" "n < 2 ^ 53"
  shows "d_sig (nat_to_double n) = n * 2 ^ (52 - msb n)" "d_scale (nat_to_double n) = 1023 + msb n"
  using nat_to_double_fields [OF assms] nat_to_double_parts [OF assms]
  by (simp_all add: d_sig_def d_scale_def)

lemma nat_to_double_mag:
  assumes "n < 2 ^ 53"
  shows "d_mag (nat_to_double n) = n"
proof (cases "n = 0")
  case True
  then show ?thesis
    by (simp add: nat_to_double_def d_mag_def d_sig_def d_scale_def d_exp_def d_man_def)
next
  case False
  then have pos: "0 < n" by simp
  note s = nat_to_double_sig [OF pos assms] and p = nat_to_double_parts [OF pos assms]
  have j: "1075 - (1023 + msb n) = 52 - msb n" by simp
  show ?thesis unfolding d_mag_def s j using p(1) by simp
qed

lemma nat_to_double_val:
  assumes "n < 2 ^ 53"
  shows "d_val (nat_to_double n) = of_nat n"
proof (cases "n = 0")
  case True
  then show ?thesis
    by (simp add: nat_to_double_def d_val_def d_sig_def d_scale_def d_exp_def d_man_def)
next
  case False
  then have pos: "0 < n" by simp
  note s = nat_to_double_sig [OF pos assms] and p = nat_to_double_parts [OF pos assms]
    and f = nat_to_double_fields [OF pos assms]
  have j: "1075 - (1023 + msb n) = 52 - msb n" by simp
  show ?thesis unfolding d_val_def s j using p(1) f(3) by simp
qed


lemma int_to_double_neg_fields:
  assumes "i < 0" "- i < 2 ^ 53"
  shows "d_exp (int_to_double i) = 1023 + msb (nat (- i))"
    "d_man (int_to_double i) = nat (- i) * 2 ^ (52 - msb (nat (- i))) - 2 ^ 52"
    "d_neg (int_to_double i)"
proof -
  define n where "n = nat (- i)"
  have pos: "0 < n" and lt: "n < 2 ^ 53" using assms by (simp_all add: n_def nat_less_iff)
  note p = nat_to_double_parts [OF pos lt]
  have e: "1023 + msb n < 2048" using p(1) by simp
  have m: "n * 2 ^ (52 - msb n) - 2 ^ 52 < 2 ^ 52" using p(3) by simp
  have d: "int_to_double i = word_of_nat (2 ^ 63) +
      word_of_nat ((1023 + msb n) * 2 ^ 52 + (n * 2 ^ (52 - msb n) - 2 ^ 52))"
    using assms(1) pos by (simp add: int_to_double_def nat_to_double_def n_def)
  show "d_exp (int_to_double i) = 1023 + msb (nat (- i))"
    unfolding d n_def [symmetric] by (rule fields_neg(1) [OF e m])
  show "d_man (int_to_double i) = nat (- i) * 2 ^ (52 - msb (nat (- i))) - 2 ^ 52"
    unfolding d n_def [symmetric] by (rule fields_neg(2) [OF e m])
  show "d_neg (int_to_double i)"
    unfolding d by (rule fields_neg(3) [OF e m])
qed

lemma int_to_double_val:
  assumes "\<bar>i\<bar> < 2 ^ 53"
  shows "d_val (int_to_double i) = of_int i"
proof (cases "i < 0")
  case False
  then have "int_to_double i = nat_to_double (nat i)" by (simp add: int_to_double_def)
  moreover have "nat i < 2 ^ 53" using assms False by (simp add: nat_less_iff)
  ultimately show ?thesis using False by (simp add: nat_to_double_val)
next
  case True
  define n where "n = nat (- i)"
  have pos: "0 < n" and lt: "n < 2 ^ 53" using assms True by (simp_all add: n_def nat_less_iff)
  have ni: "- i < 2 ^ 53" using assms True by simp
  note f = int_to_double_neg_fields [OF True ni, folded n_def]
    and p = nat_to_double_parts [OF pos lt]
  have sg: "d_sig (int_to_double i) = n * 2 ^ (52 - msb n)"
    and sc: "d_scale (int_to_double i) = 1023 + msb n"
    using f p by (simp_all add: d_sig_def d_scale_def)
  have j: "1075 - (1023 + msb n) = 52 - msb n" by simp
  have "d_val (int_to_double i) = - of_nat n"
    unfolding d_val_def sg sc j using p(1) f(3) by simp
  also have "\<dots> = of_int i" using True by (simp add: n_def)
  finally show ?thesis .
qed

lemma int_to_double_finite: "\<bar>i\<bar> < 2 ^ 53 \<Longrightarrow> is_finite (int_to_double i)"
proof (cases "i < 0")
  case True
  assume a: "\<bar>i\<bar> < 2 ^ 53"
  then have ni: "- i < 2 ^ 53" using True by simp
  have "0 < nat (- i)" "nat (- i) < 2 ^ 53" using a True by (simp_all add: nat_less_iff)
  from nat_to_double_parts(1) [OF this] int_to_double_neg_fields(1) [OF True ni]
  show ?thesis by (simp add: is_finite_def)
next
  case False
  assume a: "\<bar>i\<bar> < 2 ^ 53"
  show ?thesis
  proof (cases "i = 0")
    case True
    then show ?thesis by (simp add: int_to_double_def nat_to_double_def is_finite_def d_exp_def)
  next
    case nz: False
    have "0 < nat i" "nat i < 2 ^ 53" using a False nz by (simp_all add: nat_less_iff)
    from nat_to_double_parts(1) [OF this] nat_to_double_fields(1) [OF this] False
    show ?thesis by (simp add: is_finite_def int_to_double_def)
  qed
qed

lemma unat_fields:
  "unat d = (if d_neg d then 2 ^ 63 else 0) + d_exp d * 2 ^ 52 + d_man d"
proof -
  define u where "u = unat d"
  define q where "q = u div 2 ^ 52"
  have lt: "u < 2 ^ 64" unfolding u_def using unsigned_less [of d] by simp
  have q: "q < 4096" unfolding q_def using lt by (simp add: less_mult_imp_div_less)
  have u: "u = q * 2 ^ 52 + u mod 2 ^ 52" unfolding q_def by simp
  have neg: "d_neg d \<longleftrightarrow> 2048 \<le> q"
    unfolding d_neg_def q_def u_def [symmetric] by (simp add: less_eq_div_iff_mult_less_eq)
  have e: "d_exp d = q mod 2048" unfolding d_exp_def q_def u_def by simp
  have m: "d_man d = u mod 2 ^ 52" unfolding d_man_def u_def by simp
  have qq: "q = (if 2048 \<le> q then 2048 else 0) + q mod 2048" using q by (auto simp: mod_if)
  have "u = ((if 2048 \<le> q then 2048 else 0) + q mod 2048) * 2 ^ 52 + u mod 2 ^ 52"
    using u qq by simp
  also have "\<dots> = (if 2048 \<le> q then 2 ^ 63 else 0) + (q mod 2048) * 2 ^ 52 + u mod 2 ^ 52"
    by (simp add: algebra_simps)
  finally show ?thesis unfolding neg e m u_def [symmetric] .
qed

lemma d_man_less: "d_man d < 2 ^ 52"
  by (simp add: d_man_def)

lemma d_exp_less: "d_exp d < 2048"
  by (simp add: d_exp_def)

lemma unat_clear_low: "unat (push_bit j (drop_bit j d) :: 64 word) = unat d div 2 ^ j * 2 ^ j"
proof -
  have "unat d div 2 ^ j * 2 ^ j \<le> unat d" by simp
  also have "\<dots> < 2 ^ 64" using unsigned_less [of d] by simp
  finally have lt: "unat d div 2 ^ j * 2 ^ j < 2 ^ 64" .
  have "unat (push_bit j (drop_bit j d) :: 64 word) = take_bit 64 (push_bit j (drop_bit j (unat d)))"
    by (simp add: unsigned_push_bit_eq unat_drop_bit_eq)
  also have "\<dots> = take_bit 64 (unat d div 2 ^ j * 2 ^ j)"
    by (simp add: push_bit_eq_mult drop_bit_eq_div)
  also have "\<dots> = unat d div 2 ^ j * 2 ^ j"
    using lt by (simp add: take_bit_nat_eq_self)
  finally show ?thesis .
qed

lemma clear_low_eq_iff: "push_bit j (drop_bit j d) = d \<longleftrightarrow> 2 ^ j dvd unat d"
  for d :: "64 word"
proof -
  have "push_bit j (drop_bit j d) = d \<longleftrightarrow> unat d div 2 ^ j * 2 ^ j = unat d"
    by (simp add: word_unat_eq_iff unat_clear_low)
  also have "\<dots> \<longleftrightarrow> 2 ^ j dvd unat d"
    by (metis dvd_div_mult_self dvd_triv_right)
  finally show ?thesis .
qed

lemma dvd_unat_iff:
  assumes "j \<le> 52"
  shows "2 ^ j dvd unat d \<longleftrightarrow> 2 ^ j dvd d_man d"
proof -
  have a: "(2::nat) ^ j dvd 2 ^ 52" and b: "(2::nat) ^ j dvd 2 ^ 63"
    using assms by (intro le_imp_power_dvd; simp)+
  have "(2::nat) ^ j dvd (if d_neg d then 2 ^ 63 else 0) + d_exp d * 2 ^ 52"
    using a b by (auto intro: dvd_add dvd_mult)
  then show ?thesis
    by (subst unat_fields) (simp add: dvd_add_right_iff)
qed

lemma rat_quot_int:
  assumes "0 < b"
  shows "(of_nat a / of_nat b :: rat) \<in> \<int> \<longleftrightarrow> b dvd a"
proof
  assume "b dvd a"
  then obtain c where "a = b * c" ..
  then have "(of_nat a / of_nat b :: rat) = of_nat c" using assms by simp
  then show "(of_nat a / of_nat b :: rat) \<in> \<int>" by simp
next
  assume "(of_nat a / of_nat b :: rat) \<in> \<int>"
  then obtain z where z: "(of_nat a / of_nat b :: rat) = of_int z" by (auto elim: Ints_cases)
  then have "(of_nat a :: rat) = of_int z * of_nat b" using assms by (simp add: field_simps)
  then have "(of_int (int a) :: rat) = of_int (z * int b)" by simp
  then have "int a = z * int b" by (simp only: of_int_eq_iff)
  then have "int b dvd int a" by simp
  then show "b dvd a" by (simp only: int_dvd_int_iff)
qed

text \<open>Below exponent 1075 a finite double is a whole number exactly when the bits of
  the significand under the binary point are zero.\<close>

lemma val_int_iff_dvd:
  assumes "d_scale d < 1075"
  shows "frac (d_val d) = 0 \<longleftrightarrow> 2 ^ (1075 - d_scale d) dvd d_sig d"
proof -
  have "frac (d_val d) = 0 \<longleftrightarrow> d_val d \<in> \<int>" by simp
  also have "\<dots> \<longleftrightarrow> (of_nat (d_sig d) / of_nat (2 ^ (1075 - d_scale d)) :: rat) \<in> \<int>"
    using assms by (cases "d_neg d") (simp_all add: d_val_def)
  also have "\<dots> \<longleftrightarrow> 2 ^ (1075 - d_scale d) dvd d_sig d"
    by (rule rat_quot_int) simp
  finally show ?thesis .
qed

lemma val_int_high:
  assumes "1075 \<le> d_scale d"
  shows "frac (d_val d) = 0"
  using assms by (cases "d_neg d") (simp_all add: d_val_def)

lemma finite_not_nan: "is_finite d \<Longrightarrow> \<not> is_nan d"
  by (simp add: is_finite_def is_nan_def)

lemma sign_only_zero: "is_zero (push_bit 63 (drop_bit 63 d))" for d :: "64 word"
proof -
  have lt: "unat d < 2 ^ 64" using unsigned_less [of d] by simp
  then have "unat d div 2 ^ 63 < 2" by (simp add: less_mult_imp_div_less)
  then have "unat d div 2 ^ 63 = 0 \<or> unat d div 2 ^ 63 = 1" by linarith
  then have "unat (push_bit 63 (drop_bit 63 d)) = 0 \<or> unat (push_bit 63 (drop_bit 63 d)) = 2 ^ 63"
    by (auto simp: unat_clear_low)
  then show ?thesis by (auto simp: is_zero_def d_exp_def d_man_def)
qed

lemma zero_not_nan: "is_zero d \<Longrightarrow> \<not> is_nan d"
  by (simp add: is_zero_def is_nan_def)

lemma whole_low:
  assumes "d_exp d < 1023"
  shows "d_eq (d_trunc d) d \<longleftrightarrow> is_zero d"
proof -
  have t: "d_trunc d = push_bit 63 (drop_bit 63 d)" using assms by (simp add: d_trunc_def)
  have z: "is_zero (d_trunc d)" unfolding t by (rule sign_only_zero)
  have nn: "\<not> is_nan d" using assms by (simp add: is_nan_def)
  show ?thesis using z nn zero_not_nan [OF z] by (auto simp: d_eq_def)
qed

lemma whole_mid:
  assumes "1023 \<le> d_exp d" "d_exp d < 1075"
  shows "d_eq (d_trunc d) d \<longleftrightarrow> 2 ^ (1075 - d_exp d) dvd 2 ^ 52 + d_man d"
proof -
  define j where "j = 1075 - d_exp d"
  have j: "j \<le> 52" using assms by (simp add: j_def)
  have t: "d_trunc d = push_bit j (drop_bit j d)" using assms by (simp add: d_trunc_def j_def)
  have nn: "\<not> is_nan d" using assms by (simp add: is_nan_def)
  have nz: "\<not> is_zero d" using assms by (simp add: is_zero_def)
  have "d_eq (d_trunc d) d \<longleftrightarrow> d_trunc d = d" using nn nz by (auto simp: d_eq_def)
  also have "\<dots> \<longleftrightarrow> 2 ^ j dvd unat d" unfolding t by (rule clear_low_eq_iff)
  also have "\<dots> \<longleftrightarrow> 2 ^ j dvd d_man d" by (rule dvd_unat_iff [OF j])
  also have "\<dots> \<longleftrightarrow> 2 ^ j dvd 2 ^ 52 + d_man d"
  proof -
    have "(2::nat) ^ j dvd 2 ^ 52" using j by (intro le_imp_power_dvd)
    then show ?thesis by (rule dvd_add_right_iff [symmetric])
  qed
  finally show ?thesis unfolding j_def .
qed

lemma whole_high:
  assumes "1075 \<le> d_exp d" "is_finite d"
  shows "d_eq (d_trunc d) d"
  using assms finite_not_nan [OF assms(2)] by (simp add: d_trunc_def d_eq_def)

lemma d_sig_less: "d_sig d < 2 ^ 53"
  using d_man_less [of d] by (simp add: d_sig_def)

lemma whole_iff_dvd:
  assumes "d_exp d < 1075"
  shows "d_eq (d_trunc d) d \<longleftrightarrow> 2 ^ (1075 - d_scale d) dvd d_sig d"
proof (cases "d_exp d < 1023")
  case False
  then have "d_scale d = d_exp d" "d_sig d = 2 ^ 52 + d_man d"
    by (simp_all add: d_scale_def d_sig_def)
  then show ?thesis using whole_mid [of d] False assms by simp
next
  case True
  then have k: "53 \<le> 1075 - d_scale d" by (cases "d_exp d = 0"; simp add: d_scale_def; arith)
  have "(2::nat) ^ 53 \<le> 2 ^ (1075 - d_scale d)" using k by (intro power_increasing) simp_all
  then have big: "d_sig d < 2 ^ (1075 - d_scale d)" using d_sig_less [of d] by simp
  have "2 ^ (1075 - d_scale d) dvd d_sig d \<longleftrightarrow> d_sig d = 0"
  proof
    assume dv: "2 ^ (1075 - d_scale d) dvd d_sig d"
    show "d_sig d = 0"
    proof (rule ccontr)
      assume "d_sig d \<noteq> 0"
      then have "2 ^ (1075 - d_scale d) \<le> d_sig d" using dv by (intro dvd_imp_le) simp_all
      with big show False by simp
    qed
  qed simp
  also have "\<dots> \<longleftrightarrow> is_zero d" by (simp add: d_sig_def is_zero_def)
  finally show ?thesis using whole_low [OF True] by simp
qed

text \<open>The test \<^verbatim>\<open>trunc(d) != d\<close> of the source holds for a finite double exactly when
  its value has a fractional part.\<close>

lemma whole_iff_frac:
  assumes "is_finite d"
  shows "d_eq (d_trunc d) d \<longleftrightarrow> frac (d_val d) = 0"
proof (cases "d_exp d < 1075")
  case True
  then have "d_scale d < 1075" by (simp add: d_scale_def)
  from val_int_iff_dvd [OF this] whole_iff_dvd [OF True] show ?thesis by simp
next
  case False
  then have "1075 \<le> d_scale d" by (simp add: d_scale_def)
  from val_int_high [OF this] whole_high [OF _ assms] False show ?thesis by simp
qed

lemma d_gt0_iff:
  assumes "is_finite d"
  shows "d_gt0 d \<longleftrightarrow> 0 < d_val d"
proof -
  have s: "0 < d_sig d \<longleftrightarrow> \<not> is_zero d" by (auto simp: d_sig_def is_zero_def)
  show ?thesis
  proof (cases "d_neg d")
    case True
    have "d_val d \<le> 0" using True by (simp add: d_val_def)
    then show ?thesis using True by (simp add: d_gt0_def)
  next
    case False
    have "0 < d_val d \<longleftrightarrow> 0 < d_sig d" using False by (simp add: d_val_def zero_less_divide_iff zero_less_mult_iff)
    then show ?thesis using False finite_not_nan [OF assms] s by (simp add: d_gt0_def)
  qed
qed

text \<open>A whole double other than zero whose magnitude is below \<open>2 ^ 53\<close>: its exponent
  lies between 1023 and 1075, and the magnitude is the significand without its trailing
  zero bits.\<close>

lemma whole_form:
  assumes w: "d_eq (d_trunc d) d" and nz: "\<not> is_zero d" and lt: "d_mag d < 2 ^ 53"
  shows "1023 \<le> d_exp d" "d_exp d \<le> 1075"
    "d_mag d * 2 ^ (1075 - d_exp d) = 2 ^ 52 + d_man d"
proof -
  show lo: "1023 \<le> d_exp d"
  proof (rule ccontr)
    assume "\<not> 1023 \<le> d_exp d"
    then have "d_exp d < 1023" by simp
    from whole_low [OF this] w nz show False by simp
  qed
  then have sc: "d_scale d = d_exp d" and sg: "d_sig d = 2 ^ 52 + d_man d"
    by (auto simp: d_scale_def d_sig_def)
  show hi: "d_exp d \<le> 1075"
  proof (rule ccontr)
    assume "\<not> d_exp d \<le> 1075"
    then have e: "1 \<le> d_exp d - 1075" "1075 \<le> d_exp d" by simp_all
    have "(2::nat) ^ 1 \<le> 2 ^ (d_exp d - 1075)" using e(1) by (intro power_increasing) simp_all
    then have "2 ^ 52 * 2 ^ 1 \<le> (2 ^ 52 + d_man d) * 2 ^ (d_exp d - 1075)"
      by (intro mult_le_mono) simp_all
    moreover have "d_mag d = (2 ^ 52 + d_man d) * 2 ^ (d_exp d - 1075)"
      using e(2) by (simp add: d_mag_def sc sg)
    ultimately show False using lt by simp
  qed
  show "d_mag d * 2 ^ (1075 - d_exp d) = 2 ^ 52 + d_man d"
  proof (cases "d_exp d = 1075")
    case True
    then show ?thesis by (simp add: d_mag_def sc sg)
  next
    case False
    then have e: "d_exp d < 1075" using hi by simp
    from whole_mid [OF lo e] w have "2 ^ (1075 - d_exp d) dvd 2 ^ 52 + d_man d" by simp
    moreover have "d_mag d = (2 ^ 52 + d_man d) div 2 ^ (1075 - d_exp d)"
      using e by (simp add: d_mag_def sc sg)
    ultimately show ?thesis by (simp only: dvd_div_mult_self)
  qed
qed

lemma whole_msb:
  assumes w: "d_eq (d_trunc d) d" and nz: "\<not> is_zero d" and lt: "d_mag d < 2 ^ 53"
  shows "msb (d_mag d) = d_exp d - 1023"
proof -
  note f = whole_form [OF assms]
  define j where "j = 1075 - d_exp d"
  define k where "k = d_exp d - 1023"
  have kj: "k + j = 52" using f(1,2) by (simp add: j_def k_def)
  have kj': "Suc k + j = 53" using kj by simp
  have p52: "(2::nat) ^ k * 2 ^ j = 2 ^ 52" by (simp only: power_add [symmetric] kj)
  have p53: "(2::nat) ^ Suc k * 2 ^ j = 2 ^ 53" by (simp only: power_add [symmetric] kj')
  have eq: "d_mag d * 2 ^ j = 2 ^ 52 + d_man d" using f(3) by (simp add: j_def)
  have "2 ^ k * 2 ^ j \<le> d_mag d * 2 ^ j" unfolding p52 eq by simp
  then have lo: "2 ^ k \<le> d_mag d" by simp
  have "d_mag d * 2 ^ j < 2 ^ Suc k * 2 ^ j" unfolding p53 eq using d_man_less [of d] by simp
  then have hi: "d_mag d < 2 ^ Suc k" by simp
  show ?thesis unfolding k_def [symmetric] by (rule msb_unique [OF lo hi])
qed

lemma whole_nat_to_double:
  assumes w: "d_eq (d_trunc d) d" and nz: "\<not> is_zero d" and lt: "d_mag d < 2 ^ 53"
  shows "nat_to_double (d_mag d) = word_of_nat (d_exp d * 2 ^ 52 + d_man d)" "0 < d_mag d"
proof -
  note f = whole_form [OF assms] and m = whole_msb [OF assms]
  show pos: "0 < d_mag d" using f(3) by (cases "d_mag d = 0") simp_all
  have a: "1023 + (d_exp d - 1023) = d_exp d" using f(1) by simp
  have b: "52 - (d_exp d - 1023) = 1075 - d_exp d" using f(1,2) by simp
  show "nat_to_double (d_mag d) = word_of_nat (d_exp d * 2 ^ 52 + d_man d)"
    using pos unfolding nat_to_double_def m a b f(3) by simp
qed

lemma roundtrip_pos:
  assumes "\<not> d_neg d" "d_eq (d_trunc d) d" "d_mag d < 2 ^ 53"
  shows "nat_to_double (d_mag d) = d"
proof (cases "is_zero d")
  case True
  then have "unat d = 0" using assms(1) by (subst unat_fields) (simp add: is_zero_def)
  then have "d = 0" by (simp add: unat_eq_0)
  then show ?thesis
    by (simp add: nat_to_double_def d_mag_def d_sig_def d_scale_def d_exp_def d_man_def)
next
  case False
  have "nat_to_double (d_mag d) = word_of_nat (d_exp d * 2 ^ 52 + d_man d)"
    by (rule whole_nat_to_double(1) [OF assms(2) False assms(3)])
  also have "\<dots> = word_of_nat (unat d)"
  proof -
    have "unat d = d_exp d * 2 ^ 52 + d_man d" using assms(1) unat_fields [of d] by simp
    then show ?thesis by (simp only:)
  qed
  finally show ?thesis by simp
qed

lemma roundtrip_neg:
  assumes "d_neg d" "d_eq (d_trunc d) d" "\<not> is_zero d" "d_mag d < 2 ^ 53"
  shows "int_to_double (- int (d_mag d)) = d"
proof -
  note n = whole_nat_to_double [OF assms(2,3,4)]
  have "int_to_double (- int (d_mag d)) = word_of_nat (2 ^ 63) + nat_to_double (d_mag d)"
    using n(2) by (simp add: int_to_double_def)
  also have "\<dots> = word_of_nat (2 ^ 63 + d_exp d * 2 ^ 52 + d_man d)"
    unfolding n(1) by simp
  also have "\<dots> = word_of_nat (unat d)"
  proof -
    have "unat d = 2 ^ 63 + d_exp d * 2 ^ 52 + d_man d" using assms(1) unat_fields [of d] by simp
    then show ?thesis by (simp only:)
  qed
  finally show ?thesis by simp
qed

lemma narrow_u32: "n < 2 ^ 32 \<Longrightarrow> unat (ucast (word_of_nat n :: 64 word) :: 32 word) = n"
  by (simp add: unsigned_ucast_eq unsigned_of_nat take_bit_nat_eq_self)

lemma narrow_i32:
  assumes "n \<le> 2 ^ 31"
  shows "sint (ucast (- word_of_nat n :: 64 word) :: 32 word) = - int n"
proof -
  have a: "(- word_of_nat n :: 64 word) = word_of_int (- int n)" by simp
  have b: "(ucast (word_of_int (- int n) :: 64 word) :: 32 word) = word_of_int (- int n)"
    by (rule ucast_down_wi) (simp add: is_down)
  have c: "sint (word_of_int (- int n) :: 32 word) = - int n"
    using assms by (simp only: signed_of_int) (simp add: signed_take_bit_int_eq_self)
  show ?thesis unfolding a b c ..
qed

lemma nat_to_double_finite: "n < 2 ^ 53 \<Longrightarrow> is_finite (nat_to_double n)"
  using int_to_double_finite [of "int n"] by (simp add: int_to_double_def)

lemma unat_ucast_32: "unat (ucast u :: 32 word) = unat u mod 2 ^ 32" for u :: "64 word"
  by (simp add: unsigned_ucast_eq take_bit_eq_mod)

lemma sint_32_bounds: "- (2 ^ 31) \<le> sint w" "sint w < 2 ^ 31" for w :: "32 word"
  using sint_ge [of w] sint_lt [of w] by simp_all


lemma number_examples:
  "is_finite 0x3FF8000000000000 \<and> d_val 0x3FF8000000000000 = 3 / 2 \<and>
   number_node 0x3FF8000000000000 = DOUBLE 0x3FF8000000000000"
  "is_finite 0 \<and> d_val 0 = 0 \<and> number_node 0 = NEGATIVE_INTEGER 0"
  "is_finite 0xC014000000000000 \<and> d_val 0xC014000000000000 = - 5 \<and>
   number_node 0xC014000000000000 = NEGATIVE_INTEGER (- 5)"
  "is_finite 0x4014000000000000 \<and> d_val 0x4014000000000000 = 5 \<and>
   number_node 0x4014000000000000 = POSITIVE_INTEGER 5"
  "is_finite 0x4202A05F20000000 \<and> d_val 0x4202A05F20000000 = 10000000000 \<and>
   number_node 0x4202A05F20000000 = POSITIVE_INTEGER 10000000000"
  "is_inf 0x7FF0000000000000 \<and> \<not> d_neg 0x7FF0000000000000"
  "is_nan 0x7FF8000000000000"
  by (simp_all add: number_node_def d_val_def double_defs)

section \<open>Properties of the parser\<close>

lemma exec_shorter: "exec stk inp = Got v rest \<Longrightarrow> length rest < length inp"
proof (induction stk inp rule: exec.induct)
  case (1 stk inp)
  show ?case
  proof (cases "read_token inp")
    case NeedMore
    with "1.prems" show ?thesis by (simp add: exec.simps)
  next
    case Bad
    with "1.prems" show ?thesis by (simp add: exec.simps)
  next
    case (Got tok r)
    note g = this
    from read_token_shorter [OF g] have r: "length r < length inp" .
    show ?thesis
    proof (cases "open_token tok stk")
      case (Inl w)
      with "1.prems" g r show ?thesis by (simp add: exec.simps)
    next
      case (Inr stk')
      with "1.prems" g have "exec stk' r = Got v rest" by (simp add: exec.simps)
      from "1.IH" [OF g Inr this] r show ?thesis by simp
    qed
  qed
qed


section \<open>The parser reads back what the packer writes\<close>

lemma length_be [simp]: "length (be k n) = k"
  by (induction k) simp_all

lemma from_be_Cons: "from_be (b # bs) = unat b * 256 ^ length bs + from_be bs"
proof -
  define f where "f = (\<lambda>a (b :: byte). a * 256 + unat b)"
  have "foldl f a bs = a * 256 ^ length bs + foldl f 0 bs" for a
  proof (induction bs arbitrary: a)
    case Nil
    then show ?case by simp
  next
    case (Cons x xs)
    have "foldl f a (x # xs) = foldl f (f a x) xs" by simp
    also have "\<dots> = f a x * 256 ^ length xs + foldl f 0 xs" by (rule Cons)
    also have "\<dots> = a * 256 ^ length (x # xs) + (f 0 x * 256 ^ length xs + foldl f 0 xs)"
      by (simp add: f_def algebra_simps)
    also have "f 0 x * 256 ^ length xs + foldl f 0 xs = foldl f (f 0 x) xs" by (rule Cons [symmetric])
    also have "\<dots> = foldl f 0 (x # xs)" by simp
    finally show ?case .
  qed
  from this [of "unat b"] show ?thesis by (simp add: from_be_def f_def)
qed

lemma from_be_Nil [simp]: "from_be [] = 0"
  by (simp add: from_be_def)

lemma from_be_be: "from_be (be k n) = n mod 256 ^ k"
proof (induction k)
  case 0
  then show ?case by simp
next
  case (Suc k)
  have "unat (word_of_nat (n div 256 ^ k) :: byte) = (n div 256 ^ k) mod 256"
    by (simp add: unat_of_nat)
  then have "from_be (be (Suc k) n) = (n div 256 ^ k) mod 256 * 256 ^ k + n mod 256 ^ k"
    by (simp add: from_be_Cons Suc)
  also have "\<dots> = n mod 256 ^ Suc k"
  proof -
    have "n mod (256 ^ k * 256) = 256 ^ k * (n div 256 ^ k mod 256) + n mod 256 ^ k"
      by (rule mod_mult2_eq)
    then show ?thesis by (simp add: mult.commute)
  qed
  finally show ?case .
qed

lemma from_be_be_small: "n < 256 ^ k \<Longrightarrow> from_be (be k n) = n"
  by (simp add: from_be_be)

lemma fixed_be:
  "fixed k f (be k n @ rest) = Got (f (n mod 256 ^ k)) rest"
  by (simp add: fixed_def from_be_be)

lemma raw_body_exact: "raw_body (length s) (s @ rest) = Got (Scalar (RAW s)) rest"
  by (simp add: raw_body_def)

lemma raw_hdr_be:
  "length s < 256 ^ k \<Longrightarrow> raw_hdr k (be k (length s) @ s @ rest) = Got (Scalar (RAW s)) rest"
  by (simp add: raw_hdr_def from_be_be raw_body_exact)

lemma read_token_Cons:
  "read_token (b # bs) =
     (let t = unat b in
           if t < 0x80 then Got (Scalar (POSITIVE_INTEGER (word_of_nat t))) bs
           else if t < 0x90 then Got (MapHdr (t - 0x80)) bs
           else if t < 0xa0 then Got (ArrayHdr (t - 0x90)) bs
           else if t < 0xc0 then raw_body (t - 0xa0) bs
           else if t = 0xc0 then Got (Scalar NIL) bs
           else if t = 0xc2 then Got (Scalar (BOOLEAN False)) bs
           else if t = 0xc3 then Got (Scalar (BOOLEAN True)) bs
           else if t = 0xcb then fixed 8 (\<lambda>n. Scalar (DOUBLE (word_of_nat n))) bs
           else if t = 0xcc then fixed 1 (\<lambda>n. Scalar (POSITIVE_INTEGER (word_of_nat n))) bs
           else if t = 0xcd then fixed 2 (\<lambda>n. Scalar (POSITIVE_INTEGER (word_of_nat n))) bs
           else if t = 0xce then fixed 4 (\<lambda>n. Scalar (POSITIVE_INTEGER (word_of_nat n))) bs
           else if t = 0xcf then fixed 8 (\<lambda>n. Scalar (POSITIVE_INTEGER (word_of_nat n))) bs
           else if t = 0xd0 then fixed 1 (int_node 8) bs
           else if t = 0xd1 then fixed 2 (int_node 16) bs
           else if t = 0xd2 then fixed 4 (int_node 32) bs
           else if t = 0xd3 then fixed 8 (int_node 64) bs
           else if t = 0xda then raw_hdr 2 bs
           else if t = 0xdb then raw_hdr 4 bs
           else if t = 0xdc then fixed 2 ArrayHdr bs
           else if t = 0xdd then fixed 4 ArrayHdr bs
           else if t = 0xde then fixed 2 MapHdr bs
           else if t = 0xdf then fixed 4 MapHdr bs
           else if 0xe0 \<le> t then Got (int_node 8 t) bs
           else Bad)"
  by (simp add: read_token_def classify_def Let_def if_distrib [of "\<lambda>r. run_reader r bs"]
      cong del: if_weak_cong)

text \<open>Reading back the header of a raw, an array and a map.\<close>

lemma read_pack_raw:
  assumes "length s < 2 ^ 32"
  shows "read_token (pack_raw (length s) @ s @ rest) = Got (Scalar (RAW s)) rest"
proof -
  consider "length s < 32" | "32 \<le> length s" "length s < 2 ^ 16" | "2 ^ 16 \<le> length s"
    by linarith
  then show ?thesis
  proof cases
    case 1
    then have "unat (word_of_nat (160 + length s) :: byte) = 160 + length s"
      by (simp only: unat_of_nat) simp
    with 1 show ?thesis
      by (simp add: pack_raw_def read_token_Cons Let_def raw_body_exact)
  next
    case 2
    have "raw_hdr 2 (be 2 (length s) @ s @ rest) = Got (Scalar (RAW s)) rest"
      using 2 by (intro raw_hdr_be) simp
    with 2 show ?thesis by (simp add: pack_raw_def read_token_Cons)
  next
    case 3
    have "raw_hdr 4 (be 4 (length s) @ s @ rest) = Got (Scalar (RAW s)) rest"
      using assms by (intro raw_hdr_be) simp
    with 3 show ?thesis by (simp add: pack_raw_def read_token_Cons)
  qed
qed

lemma read_pack_array:
  assumes "n < 2 ^ 32"
  shows "read_token (pack_array n @ rest) = Got (ArrayHdr n) rest"
proof -
  consider "n < 16" | "16 \<le> n" "n < 2 ^ 16" | "2 ^ 16 \<le> n" by linarith
  then show ?thesis
  proof cases
    case 1
    then have "unat (word_of_nat (144 + n) :: byte) = 144 + n" by (simp only: unat_of_nat) simp
    with 1 show ?thesis by (simp add: pack_array_def read_token_Cons Let_def)
  next
    case 2
    have "fixed 2 ArrayHdr (be 2 n @ rest) = Got (ArrayHdr (n mod 256 ^ 2)) rest" by (rule fixed_be)
    with 2 show ?thesis by (simp add: pack_array_def read_token_Cons)
  next
    case 3
    have "fixed 4 ArrayHdr (be 4 n @ rest) = Got (ArrayHdr (n mod 256 ^ 4)) rest" by (rule fixed_be)
    with 3 assms show ?thesis by (simp add: pack_array_def read_token_Cons)
  qed
qed

lemma read_pack_map:
  assumes "n < 2 ^ 32"
  shows "read_token (pack_map n @ rest) = Got (MapHdr n) rest"
proof -
  consider "n < 16" | "16 \<le> n" "n < 2 ^ 16" | "2 ^ 16 \<le> n" by linarith
  then show ?thesis
  proof cases
    case 1
    then have "unat (word_of_nat (128 + n) :: byte) = 128 + n" by (simp only: unat_of_nat) simp
    with 1 show ?thesis by (simp add: pack_map_def read_token_Cons Let_def)
  next
    case 2
    have "fixed 2 MapHdr (be 2 n @ rest) = Got (MapHdr (n mod 256 ^ 2)) rest" by (rule fixed_be)
    with 2 show ?thesis by (simp add: pack_map_def read_token_Cons)
  next
    case 3
    have "fixed 4 MapHdr (be 4 n @ rest) = Got (MapHdr (n mod 256 ^ 4)) rest" by (rule fixed_be)
    with 3 assms show ?thesis by (simp add: pack_map_def read_token_Cons)
  qed
qed

lemma unat_sint_64: "int (unat i) = (if 0 \<le> sint i then sint i else sint i + 2 ^ 64)"
  for i :: "64 word"
proof -
  have u: "int (unat i) = sint i mod 2 ^ 64"
    using uint_sint [of i] by (simp add: take_bit_eq_mod)
  have b: "- (2 ^ 63) \<le> sint i" "sint i < 2 ^ 63"
    using sint_ge [of i] sint_lt [of i] by simp_all
  show ?thesis
  proof (cases "0 \<le> sint i")
    case True
    with b have "sint i mod 2 ^ 64 = sint i" by (intro mod_pos_pos_trivial) simp_all
    with u True show ?thesis by simp
  next
    case False
    have "(sint i + 2 ^ 64) mod 2 ^ 64 = sint i + 2 ^ 64"
      using b False by (intro mod_pos_pos_trivial) simp_all
    then have "sint i mod 2 ^ 64 = sint i + 2 ^ 64" by simp
    with u False show ?thesis by simp
  qed
qed

lemma read_pack_uint64:
  "read_token (pack_uint64 u @ rest) = Got (Scalar (POSITIVE_INTEGER u)) rest"
proof -
  define n where "n = unat u"
  have u: "word_of_nat n = u" by (simp add: n_def)
  have lt: "n < 2 ^ 64" unfolding n_def using unsigned_less [of u] by simp
  consider "n < 2 ^ 7" | "2 ^ 7 \<le> n" "n < 2 ^ 8" | "2 ^ 8 \<le> n" "n < 2 ^ 16"
    | "2 ^ 16 \<le> n" "n < 2 ^ 32" | "2 ^ 32 \<le> n" by linarith
  then show ?thesis
  proof cases
    case 1
    then have "unat (word_of_nat n :: byte) = n" by (simp add: unat_of_nat)
    with 1 u show ?thesis
      by (simp add: pack_uint64_def n_def [symmetric] read_token_Cons Let_def)
  next
    case 2
    have "fixed 1 (\<lambda>n. Scalar (POSITIVE_INTEGER (word_of_nat n))) (be 1 n @ rest) =
        Got (Scalar (POSITIVE_INTEGER (word_of_nat (n mod 256 ^ 1)))) rest" by (rule fixed_be)
    with 2 u show ?thesis
      by (simp add: pack_uint64_def n_def [symmetric] read_token_Cons Let_def)
  next
    case 3
    have "fixed 2 (\<lambda>n. Scalar (POSITIVE_INTEGER (word_of_nat n))) (be 2 n @ rest) =
        Got (Scalar (POSITIVE_INTEGER (word_of_nat (n mod 256 ^ 2)))) rest" by (rule fixed_be)
    with 3 u show ?thesis
      by (simp add: pack_uint64_def n_def [symmetric] read_token_Cons Let_def)
  next
    case 4
    have "fixed 4 (\<lambda>n. Scalar (POSITIVE_INTEGER (word_of_nat n))) (be 4 n @ rest) =
        Got (Scalar (POSITIVE_INTEGER (word_of_nat (n mod 256 ^ 4)))) rest" by (rule fixed_be)
    with 4 u show ?thesis
      by (simp add: pack_uint64_def n_def [symmetric] read_token_Cons Let_def)
  next
    case 5
    have "fixed 8 (\<lambda>n. Scalar (POSITIVE_INTEGER (word_of_nat n))) (be 8 n @ rest) =
        Got (Scalar (POSITIVE_INTEGER (word_of_nat (n mod 256 ^ 8)))) rest" by (rule fixed_be)
    with 5 u lt show ?thesis
      by (simp add: pack_uint64_def n_def [symmetric] read_token_Cons Let_def)
  qed
qed

text \<open>The low \<open>w\<close> bits of a negative integer that fits \<open>w\<close> bits are read back as that
  integer.\<close>

lemma low_bits_negative:
  fixes i :: "64 word"
  assumes "sint i < 0" "- (2 ^ (w - 1)) \<le> sint i" "0 < w" "w \<le> 64"
  shows "int (unat i mod 2 ^ w) = sint i + 2 ^ w" "2 ^ (w - 1) \<le> unat i mod 2 ^ w"
proof -
  define d where "d = sint i"
  define m where "m = unat i mod 2 ^ w"
  have p: "(2::int) ^ 64 = 2 ^ w * 2 ^ (64 - w)" using assms(4) by (simp flip: power_add)
  have h: "(2::int) ^ w = 2 * 2 ^ (w - 1)" using assms(3) by (cases w) simp_all
  have e: "int (unat i) = d + 2 ^ w * 2 ^ (64 - w)"
    unfolding p [symmetric] d_def using assms(1) unat_sint_64 [of i] by simp
  have "int m = int (unat i) mod 2 ^ w" by (simp add: m_def zmod_int)
  also have "\<dots> = (d + 2 ^ w * 2 ^ (64 - w)) mod 2 ^ w"
    by (simp only: e)
  also have "\<dots> = d mod 2 ^ w" by (rule mod_mult_self2)
  also have "\<dots> = (d + 2 ^ w) mod 2 ^ w" by simp
  also have "\<dots> = d + 2 ^ w"
  proof (rule mod_pos_pos_trivial)
    have "(0::int) \<le> 2 ^ (w - 1)" by simp
    then show "0 \<le> d + 2 ^ w" using assms(2) h unfolding d_def by linarith
    show "d + 2 ^ w < 2 ^ w" using assms(1) unfolding d_def by linarith
  qed
  finally have m: "int m = d + 2 ^ w" .
  then show "int (unat i mod 2 ^ w) = sint i + 2 ^ w" by (simp only: m_def d_def)
  have "(2::int) ^ (w - 1) \<le> int m" using m assms(2) h unfolding d_def by linarith
  then have "int (2 ^ (w - 1)) \<le> int m" by simp
  then have "(2::nat) ^ (w - 1) \<le> m" by (simp only: of_nat_le_iff)
  then show "2 ^ (w - 1) \<le> unat i mod 2 ^ w" by (simp only: m_def)
qed

lemma int_node_negative:
  fixes i :: "64 word"
  assumes "sint i < 0" "- (2 ^ (w - 1)) \<le> sint i" "0 < w" "w \<le> 64"
  shows "int_node w (unat i mod 2 ^ w) = Scalar (NEGATIVE_INTEGER i)"
proof -
  note l = low_bits_negative [OF assms]
  have "int_node w (unat i mod 2 ^ w) =
      Scalar (NEGATIVE_INTEGER (word_of_int (int (unat i mod 2 ^ w) - 2 ^ w)))"
    using l(2) by (simp add: int_node_def)
  also have "int (unat i mod 2 ^ w) - 2 ^ w = sint i" using l(1) by simp
  finally show ?thesis by simp
qed

lemma pack_int64_nonneg: "0 \<le> sint i \<Longrightarrow> pack_int64 i = pack_uint64 i"
proof -
  assume a: "0 \<le> sint i"
  define d where "d = sint i"
  define n where "n = unat i"
  have dn: "d = int n" using a unat_sint_64 [of i] by (simp only: d_def n_def if_True)
  have f1: "\<not> d < - (2 ^ 5)" using a by (simp add: d_def)
  have f: "(d < 2 ^ 7) = (n < 2 ^ 7)" "(d < 2 ^ 8) = (n < 2 ^ 8)" "(d < 2 ^ 16) = (n < 2 ^ 16)"
    "(d < 2 ^ 32) = (n < 2 ^ 32)"
    unfolding dn by simp_all
  have "pack_int64 i =
     (if d < - (2 ^ 5) then
        (if d < - (2 ^ 15) then
           (if d < - (2 ^ 31) then 0xd3 # be 8 n else 0xd2 # be 4 n)
         else
           (if d < - (2 ^ 7) then 0xd1 # be 2 n else 0xd0 # be 1 n))
      else if d < 2 ^ 7 then [word_of_nat n]
      else if d < 2 ^ 8 then 0xcc # be 1 n
      else if d < 2 ^ 16 then 0xcd # be 2 n
      else if d < 2 ^ 32 then 0xce # be 4 n
      else 0xcf # be 8 n)"
    by (simp only: pack_int64_def Let_def d_def n_def)
  also have "\<dots> =
     (if n < 2 ^ 7 then [word_of_nat n]
      else if n < 2 ^ 8 then 0xcc # be 1 n
      else if n < 2 ^ 16 then 0xcd # be 2 n
      else if n < 2 ^ 32 then 0xce # be 4 n
      else 0xcf # be 8 n)"
    by (simp only: f1 f if_False)
  also have "\<dots> = pack_uint64 i"
    by (simp only: pack_uint64_def Let_def n_def)
  finally show ?thesis .
qed

lemma exec_scalar:
  "read_token inp = Got (Scalar v) r \<Longrightarrow> exec stk inp = deliver v stk r"
  by (subst exec.simps) (simp add: deliver_def)

lemma read_pack_int64:
  "read_token (pack_int64 i @ rest) = Got (Scalar (canon (NEGATIVE_INTEGER i))) rest"
proof (cases "0 \<le> sint i")
  case True
  then show ?thesis by (simp add: pack_int64_nonneg read_pack_uint64)
next
  case False
  define d where "d = sint i"
  define n where "n = unat i"
  have neg: "sint i < 0" using False by simp
  have lo: "- (2 ^ 63) \<le> sint i" using sint_ge [of i] by simp
  have p: "pack_int64 i =
     (if d < - (2 ^ 5) then
        (if d < - (2 ^ 15) then
           (if d < - (2 ^ 31) then 0xd3 # be 8 n else 0xd2 # be 4 n)
         else
           (if d < - (2 ^ 7) then 0xd1 # be 2 n else 0xd0 # be 1 n))
      else [word_of_nat n])"
    using neg by (simp add: pack_int64_def Let_def d_def n_def)
  consider "d < - (2 ^ 31)" | "- (2 ^ 31) \<le> d" "d < - (2 ^ 15)" | "- (2 ^ 15) \<le> d" "d < - (2 ^ 7)"
    | "- (2 ^ 7) \<le> d" "d < - (2 ^ 5)" | "- (2 ^ 5) \<le> d" by linarith
  then show ?thesis
  proof cases
    case 1
    have "fixed 8 (int_node 64) (be 8 n @ rest) = Got (int_node 64 (n mod 256 ^ 8)) rest"
      by (rule fixed_be)
    moreover have "int_node 64 (unat i mod 2 ^ 64) = Scalar (NEGATIVE_INTEGER i)"
      using neg lo by (intro int_node_negative) simp_all
    ultimately show ?thesis using 1 False by (simp add: p read_token_Cons n_def)
  next
    case 2
    have "fixed 4 (int_node 32) (be 4 n @ rest) = Got (int_node 32 (n mod 256 ^ 4)) rest"
      by (rule fixed_be)
    moreover have "int_node 32 (unat i mod 2 ^ 32) = Scalar (NEGATIVE_INTEGER i)"
      using neg 2(1) by (intro int_node_negative) (simp_all add: d_def)
    ultimately show ?thesis using 2 False by (simp add: p read_token_Cons n_def)
  next
    case 3
    have "fixed 2 (int_node 16) (be 2 n @ rest) = Got (int_node 16 (n mod 256 ^ 2)) rest"
      by (rule fixed_be)
    moreover have "int_node 16 (unat i mod 2 ^ 16) = Scalar (NEGATIVE_INTEGER i)"
      using neg 3(1) by (intro int_node_negative) (simp_all add: d_def)
    ultimately show ?thesis using 3 False by (simp add: p read_token_Cons n_def)
  next
    case 4
    have "fixed 1 (int_node 8) (be 1 n @ rest) = Got (int_node 8 (n mod 256 ^ 1)) rest"
      by (rule fixed_be)
    moreover have "int_node 8 (unat i mod 2 ^ 8) = Scalar (NEGATIVE_INTEGER i)"
      using neg 4(1) by (intro int_node_negative) (simp_all add: d_def)
    ultimately show ?thesis using 4 False by (simp add: p read_token_Cons n_def)
  next
    case 5
    have w: "- (2 ^ (8 - 1)) \<le> sint i" using 5 by (simp add: d_def)
    note l = low_bits_negative [OF neg w, simplified]
    have t: "unat (word_of_nat n :: byte) = n mod 256" by (simp add: unat_of_nat)
    have ge: "224 \<le> n mod 256" using l(1) 5 by (simp add: n_def d_def)
    have lt: "n mod 256 < 256" by simp
    have "int_node 8 (unat i mod 2 ^ 8) = Scalar (NEGATIVE_INTEGER i)"
      using neg w by (intro int_node_negative) simp_all
    then have "int_node 8 (n mod 256) = Scalar (NEGATIVE_INTEGER i)" by (simp add: n_def)
    then show ?thesis using 5 False ge lt
      by (simp add: p read_token_Cons t Let_def)
  qed
qed

lemma read_pack_double:
  "read_token (pack_double d @ rest) = Got (Scalar (DOUBLE d)) rest"
proof -
  have "fixed 8 (\<lambda>n. Scalar (DOUBLE (word_of_nat n))) (be 8 (unat d) @ rest) =
      Got (Scalar (DOUBLE (word_of_nat (unat d mod 256 ^ 8)))) rest" by (rule fixed_be)
  moreover have "unat d mod 256 ^ 8 = unat d"
    using unsigned_less [of d, where ?'a = nat] by simp
  ultimately show ?thesis by (simp add: pack_double_def read_token_Cons)
qed

lemma exec_array_hdr:
  "read_token inp = Got (ArrayHdr n) r \<Longrightarrow>
   exec stk inp = (if n = 0 then deliver (ARRAY []) stk r else exec (AFrame n [] # stk) r)"
  by (subst exec.simps) (simp add: deliver_def)

lemma exec_map_hdr:
  "read_token inp = Got (MapHdr n) r \<Longrightarrow>
   exec stk inp = (if n = 0 then deliver (MAP []) stk r else exec (MFrame n [] None # stk) r)"
  by (subst exec.simps) (simp add: deliver_def)

lemma deliver_AFrame:
  "deliver v (AFrame c acc # stk) rest =
     (if c \<le> 1 then deliver (ARRAY (rev (v # acc))) stk rest
      else exec (AFrame (c - 1) (v # acc) # stk) rest)"
  by (simp add: deliver_def)

lemma deliver_MFrame_key:
  "deliver k (MFrame c acc None # stk) rest = exec (MFrame c acc (Some k) # stk) rest"
  by (simp add: deliver_def)

lemma deliver_MFrame_val:
  "deliver v (MFrame c acc (Some k) # stk) rest =
     (if c \<le> 1 then deliver (MAP (rev ((k, v) # acc))) stk rest
      else exec (MFrame (c - 1) ((k, v) # acc) None # stk) rest)"
  by (simp add: deliver_def)

text \<open>Filling an open array, and an open map, with the encodings of the elements.\<close>

lemma exec_fill_array:
  assumes "\<And>x stk rest. x \<in> set xs \<Longrightarrow>
      exec stk (msgpack_pack_object x @ rest) = deliver (canon x) stk rest"
    and "xs \<noteq> []"
  shows "exec (AFrame (length xs) acc # stk) (concat (map msgpack_pack_object xs) @ rest) =
      deliver (ARRAY (rev acc @ map canon xs)) stk rest"
  using assms
proof (induction xs arbitrary: acc)
  case Nil
  then show ?case by simp
next
  case (Cons x xs)
  have x: "exec stk' (msgpack_pack_object x @ rest') = deliver (canon x) stk' rest'" for stk' rest'
    by (rule Cons.prems(1)) simp
  show ?case
  proof (cases "xs = []")
    case True
    then show ?thesis by (simp add: x deliver_AFrame)
  next
    case False
    have "exec (AFrame (length xs) (canon x # acc) # stk)
        (concat (map msgpack_pack_object xs) @ rest) =
        deliver (ARRAY (rev (canon x # acc) @ map canon xs)) stk rest"
      using Cons.prems(1) False by (intro Cons.IH) simp_all
    with False show ?thesis by (simp add: x deliver_AFrame)
  qed
qed

lemma exec_fill_map:
  assumes "\<And>k v stk rest. (k, v) \<in> set kvs \<Longrightarrow>
      exec stk (msgpack_pack_object k @ rest) = deliver (canon k) stk rest \<and>
      exec stk (msgpack_pack_object v @ rest) = deliver (canon v) stk rest"
    and "kvs \<noteq> []"
  shows "exec (MFrame (length kvs) acc None # stk)
      (concat (map (\<lambda>(k, v). msgpack_pack_object k @ msgpack_pack_object v) kvs) @ rest) =
      deliver (MAP (rev acc @ map (\<lambda>(k, v). (canon k, canon v)) kvs)) stk rest"
  using assms
proof (induction kvs arbitrary: acc)
  case Nil
  then show ?case by simp
next
  case (Cons kv kvs)
  obtain k v where kv: "kv = (k, v)" by (cases kv)
  have k: "exec stk' (msgpack_pack_object k @ rest') = deliver (canon k) stk' rest'"
    and v: "exec stk' (msgpack_pack_object v @ rest') = deliver (canon v) stk' rest'"
    for stk' rest'
    using Cons.prems(1) [of k v] kv by simp_all
  show ?case
  proof (cases "kvs = []")
    case True
    then show ?thesis by (simp add: kv k v deliver_MFrame_key deliver_MFrame_val)
  next
    case False
    have "exec (MFrame (length kvs) ((canon k, canon v) # acc) None # stk)
        (concat (map (\<lambda>(k, v). msgpack_pack_object k @ msgpack_pack_object v) kvs) @ rest) =
        deliver (MAP (rev ((canon k, canon v) # acc) @ map (\<lambda>(k, v). (canon k, canon v)) kvs))
          stk rest"
    proof (rule Cons.IH [OF _ False])
      fix k' v' stk' rest'
      assume "(k', v') \<in> set kvs"
      then have "(k', v') \<in> set (kv # kvs)" by simp
      then show "exec stk' (msgpack_pack_object k' @ rest') = deliver (canon k') stk' rest' \<and>
          exec stk' (msgpack_pack_object v' @ rest') = deliver (canon v') stk' rest'"
        by (rule Cons.prems(1))
    qed
    with False show ?thesis by (simp add: kv k v deliver_MFrame_key deliver_MFrame_val)
  qed
qed

text \<open>The parser reads the encoding of a node back as that node (in canonical form),
  whatever containers are open and whatever bytes follow.\<close>

lemma exec_pack:
  "sizes_ok mo \<Longrightarrow> exec stk (msgpack_pack_object mo @ rest) = deliver (canon mo) stk rest"
proof (induction mo arbitrary: stk rest)
  case NIL
  show ?case by (rule exec_scalar) (simp add: read_token_Cons)
next
  case (BOOLEAN b)
  show ?case by (rule exec_scalar) (simp add: read_token_Cons)
next
  case (POSITIVE_INTEGER u)
  show ?case by (rule exec_scalar) (simp add: read_pack_uint64)
next
  case (NEGATIVE_INTEGER i)
  show ?case by (rule exec_scalar) (simp only: msgpack_pack_object.simps read_pack_int64)
next
  case (DOUBLE d)
  show ?case by (rule exec_scalar) (simp add: read_pack_double)
next
  case (RAW s)
  then show ?case by (intro exec_scalar) (simp add: read_pack_raw)
next
  case (ARRAY xs)
  from ARRAY.prems have n: "length xs < 2 ^ 32" and ok: "\<And>x. x \<in> set xs \<Longrightarrow> sizes_ok x"
    by (simp_all add: list_all_iff)
  have r: "read_token (msgpack_pack_object (ARRAY xs) @ rest) =
      Got (ArrayHdr (length xs)) (concat (map msgpack_pack_object xs) @ rest)"
    using read_pack_array [OF n] by simp
  show ?case
  proof (cases "xs = []")
    case True
    with exec_array_hdr [OF r] show ?thesis by simp
  next
    case False
    have "exec (AFrame (length xs) [] # stk) (concat (map msgpack_pack_object xs) @ rest) =
        deliver (ARRAY (rev [] @ map canon xs)) stk rest"
      using ARRAY.IH ok False by (intro exec_fill_array) simp_all
    with exec_array_hdr [OF r] False show ?thesis by simp
  qed
next
  case (MAP kvs)
  from MAP.prems have n: "length kvs < 2 ^ 32"
    and ok: "\<And>k v. (k, v) \<in> set kvs \<Longrightarrow> sizes_ok k \<and> sizes_ok v"
    by (auto simp: list_all_iff)
  have r: "read_token (msgpack_pack_object (MAP kvs) @ rest) =
      Got (MapHdr (length kvs))
        (concat (map (\<lambda>(k, v). msgpack_pack_object k @ msgpack_pack_object v) kvs) @ rest)"
    using read_pack_map [OF n] by simp
  show ?case
  proof (cases "kvs = []")
    case True
    with exec_map_hdr [OF r] show ?thesis by simp
  next
    case False
    have "exec (MFrame (length kvs) [] None # stk)
        (concat (map (\<lambda>(k, v). msgpack_pack_object k @ msgpack_pack_object v) kvs) @ rest) =
        deliver (MAP (rev [] @ map (\<lambda>(k, v). (canon k, canon v)) kvs)) stk rest"
    proof (rule exec_fill_map [OF _ False])
      fix k v stk' rest'
      assume m: "(k, v) \<in> set kvs"
      then have "k \<in> Basic_BNFs.fsts (k, v)" "v \<in> Basic_BNFs.snds (k, v)" by simp_all
      with MAP.IH m ok [OF m]
      show "exec stk' (msgpack_pack_object k @ rest') = deliver (canon k) stk' rest' \<and>
          exec stk' (msgpack_pack_object v @ rest') = deliver (canon v) stk' rest'"
        by blast
    qed
    with exec_map_hdr [OF r] False show ?thesis by simp
  qed
qed

lemma exec_pack_top:
  "sizes_ok mo \<Longrightarrow> exec [] (msgpack_pack_object mo) = Got (canon mo) []"
  using exec_pack [of mo "[]" "[]"] by (simp add: deliver_def)

section \<open>The parser on prefixes and extensions of its input\<close>

lemma fixed_append: "fixed k f bs = Got t r \<Longrightarrow> fixed k f (bs @ ext) = Got t (r @ ext)"
  by (auto simp: fixed_def split: if_splits)

lemma raw_body_append: "raw_body n bs = Got t r \<Longrightarrow> raw_body n (bs @ ext) = Got t (r @ ext)"
  by (auto simp: raw_body_def split: if_splits)

lemma raw_hdr_append: "raw_hdr k bs = Got t r \<Longrightarrow> raw_hdr k (bs @ ext) = Got t (r @ ext)"
  by (auto simp: raw_hdr_def raw_body_def split: if_splits)

lemma fixed_not_Bad: "fixed k f bs \<noteq> Bad"
  by (simp add: fixed_def)

lemma raw_body_not_Bad: "raw_body n bs \<noteq> Bad"
  by (simp add: raw_body_def)

lemma raw_hdr_not_Bad: "raw_hdr k bs \<noteq> Bad"
  by (simp add: raw_hdr_def raw_body_def)

lemma fixed_complete: "fixed k f bs = NeedMore \<Longrightarrow> \<exists>e t. fixed k f (bs @ e) = Got t []"
proof -
  assume "fixed k f bs = NeedMore"
  then have "length bs < k" by (simp add: fixed_def split: if_splits)
  then have "fixed k f (bs @ replicate (k - length bs) 0) =
      Got (f (from_be (take k (bs @ replicate (k - length bs) 0)))) []"
    by (simp add: fixed_def)
  then show ?thesis by blast
qed

lemma raw_body_complete: "raw_body n bs = NeedMore \<Longrightarrow> \<exists>e t. raw_body n (bs @ e) = Got t []"
proof -
  assume "raw_body n bs = NeedMore"
  then have "length bs < n" by (simp add: raw_body_def split: if_splits)
  then have "raw_body n (bs @ replicate (n - length bs) 0) =
      Got (Scalar (RAW (take n (bs @ replicate (n - length bs) 0)))) []"
    by (simp add: raw_body_def)
  then show ?thesis by blast
qed

lemma raw_hdr_complete: "raw_hdr k bs = NeedMore \<Longrightarrow> \<exists>e t. raw_hdr k (bs @ e) = Got t []"
proof (cases "length bs < k")
  case True
  define e1 :: bytes where "e1 = replicate (k - length bs) 0"
  define n where "n = from_be (bs @ e1)"
  have l: "length (bs @ e1) = k" using True by (simp add: e1_def)
  have "raw_hdr k ((bs @ e1) @ replicate n 0) = raw_body n (replicate n 0)"
    using l by (simp add: raw_hdr_def n_def del: append_assoc)
  also have "\<dots> = Got (Scalar (RAW (replicate n 0))) []" by (simp add: raw_body_def)
  finally have "raw_hdr k (bs @ (e1 @ replicate n 0)) = Got (Scalar (RAW (replicate n 0))) []"
    by simp
  then show ?thesis by blast
next
  case False
  assume "raw_hdr k bs = NeedMore"
  with False have "raw_body (from_be (take k bs)) (drop k bs) = NeedMore"
    by (simp add: raw_hdr_def)
  from raw_body_complete [OF this] obtain e t where
    "raw_body (from_be (take k bs)) (drop k bs @ e) = Got t []" by blast
  with False have "raw_hdr k (bs @ e) = Got t []" by (simp add: raw_hdr_def)
  then show ?thesis by blast
qed

lemma run_reader_append_Got:
  "run_reader r bs = Got tok rest \<Longrightarrow> run_reader r (bs @ ext) = Got tok (rest @ ext)"
  by (cases r) (simp_all add: fixed_append raw_body_append raw_hdr_append)

lemma run_reader_append_Bad: "run_reader r bs = Bad \<Longrightarrow> run_reader r (bs @ ext) = Bad"
  by (cases r) (simp_all add: fixed_not_Bad raw_body_not_Bad raw_hdr_not_Bad)

lemma run_reader_complete:
  "run_reader r bs = NeedMore \<Longrightarrow> \<exists>e tok. run_reader r (bs @ e) = Got tok []"
  by (cases r) (simp_all add: fixed_complete raw_body_complete raw_hdr_complete)

lemma read_token_append_Got:
  "read_token inp = Got tok r \<Longrightarrow> read_token (inp @ ext) = Got tok (r @ ext)"
  by (cases inp) (simp_all add: read_token_def run_reader_append_Got)

lemma read_token_append_Bad: "read_token inp = Bad \<Longrightarrow> read_token (inp @ ext) = Bad"
  by (cases inp) (simp_all add: read_token_def run_reader_append_Bad)

lemma read_token_complete:
  "read_token inp = NeedMore \<Longrightarrow> \<exists>e tok. read_token (inp @ e) = Got tok []"
proof (cases inp)
  case Nil
  have "read_token ([] @ [0xc0]) = Got (Scalar NIL) []" by (simp add: read_token_Cons)
  with Nil show ?thesis by blast
next
  case (Cons b bs)
  assume "read_token inp = NeedMore"
  with Cons show ?thesis by (simp add: read_token_def run_reader_complete)
qed

text \<open>The parser's answer is stable under bytes appended to the buffer, unless it was
  that more bytes are needed.\<close>

lemma exec_append_Got: "exec stk inp = Got v r \<Longrightarrow> exec stk (inp @ ext) = Got v (r @ ext)"
proof (induction stk inp rule: exec.induct)
  case (1 stk inp)
  show ?case
  proof (cases "read_token inp")
    case NeedMore
    with "1.prems" show ?thesis by (simp add: exec.simps [of stk inp])
  next
    case Bad
    with "1.prems" show ?thesis by (simp add: exec.simps [of stk inp])
  next
    case (Got tok r')
    note g = read_token_append_Got [OF Got, of ext]
    show ?thesis
    proof (cases "open_token tok stk")
      case (Inl w)
      with "1.prems" Got g show ?thesis
        by (simp add: exec.simps [of stk inp] exec.simps [of stk "inp @ ext"])
    next
      case (Inr stk')
      with "1.prems" Got have "exec stk' r' = Got v r" by (simp add: exec.simps [of stk inp])
      from "1.IH" [OF Got Inr this] Inr g show ?thesis
        by (simp add: exec.simps [of stk "inp @ ext"])
    qed
  qed
qed

lemma exec_append_Bad: "exec stk inp = Bad \<Longrightarrow> exec stk (inp @ ext) = Bad"
proof (induction stk inp rule: exec.induct)
  case (1 stk inp)
  show ?case
  proof (cases "read_token inp")
    case NeedMore
    with "1.prems" show ?thesis by (simp add: exec.simps [of stk inp])
  next
    case Bad
    from read_token_append_Bad [OF Bad, of ext] show ?thesis
      by (simp add: exec.simps [of stk "inp @ ext"])
  next
    case (Got tok r')
    note g = read_token_append_Got [OF Got, of ext]
    show ?thesis
    proof (cases "open_token tok stk")
      case (Inl w)
      with "1.prems" Got show ?thesis by (simp add: exec.simps [of stk inp])
    next
      case (Inr stk')
      with "1.prems" Got have "exec stk' r' = Bad" by (simp add: exec.simps [of stk inp])
      from "1.IH" [OF Got Inr this] Inr g show ?thesis
        by (simp add: exec.simps [of stk "inp @ ext"])
    qed
  qed
qed

lemma exec_prefix:
  assumes "exec stk (inp @ ext) = Got v []" "ext \<noteq> []"
  shows "exec stk inp = NeedMore"
proof (cases "exec stk inp")
  case NeedMore
  then show ?thesis .
next
  case Bad
  from exec_append_Bad [OF this, of ext] assms(1) show ?thesis by simp
next
  case (Got w r)
  from exec_append_Got [OF this, of ext] assms show ?thesis by simp
qed

lemma pending_pos: "0 < pending f"
  by (cases f rule: pending.cases) simp_all

lemma push_value_decreases:
  "push_value v stk = Inr stk' \<Longrightarrow>
   stk' \<noteq> [] \<and> sum_list (map pending stk') < sum_list (map pending stk)"
proof (induction v stk arbitrary: stk' rule: push_value.induct)
  case (1 v)
  then show ?case by simp
next
  case (2 v c acc stk)
  show ?case
  proof (cases "c \<le> 1")
    case True
    with "2.prems" have "push_value (ARRAY (rev (v # acc))) stk = Inr stk'" by simp
    from "2.IH" [OF True this] True show ?thesis by (simp add: max_def)
  next
    case False
    with "2.prems" show ?thesis by auto
  qed
next
  case (3 v c acc stk)
  then show ?case by auto
next
  case (4 v c acc k stk)
  show ?case
  proof (cases "c \<le> 1")
    case True
    with "4.prems" have "push_value (MAP (rev ((k, v) # acc))) stk = Inr stk'" by simp
    from "4.IH" [OF True this] True show ?thesis by (simp add: max_def)
  next
    case False
    with "4.prems" show ?thesis by auto
  qed
qed

text \<open>Open containers can always be completed (with nil values).\<close>

lemma drain: "stk \<noteq> [] \<Longrightarrow> \<exists>ext v. exec stk ext = Got v []"
proof (induction "sum_list (map pending stk)" arbitrary: stk rule: less_induct)
  case less
  have r: "read_token (0xc0 # ext) = Got (Scalar NIL) ext" for ext
    by (simp add: read_token_Cons)
  show ?case
  proof (cases "push_value NIL stk")
    case (Inl v)
    with r [of "[]"] have "exec stk [0xc0] = Got v []" by (simp add: exec.simps [of stk])
    then show ?thesis by blast
  next
    case (Inr stk')
    from push_value_decreases [OF Inr] less.hyps [of stk']
    obtain ext v where "exec stk' ext = Got v []" by blast
    with r [of ext] Inr have "exec stk (0xc0 # ext) = Got v []"
      by (simp add: exec.simps [of stk])
    then show ?thesis by blast
  qed
qed

lemma open_token_nonempty: "open_token tok stk = Inr stk' \<Longrightarrow> stk' \<noteq> []"
  by (cases tok) (auto split: if_splits dest: push_value_decreases)

text \<open>A buffer for which the parser needs more bytes can be extended to a complete
  object.\<close>

lemma exec_complete: "exec stk inp = NeedMore \<Longrightarrow> \<exists>ext v. exec stk (inp @ ext) = Got v []"
proof (induction stk inp rule: exec.induct)
  case (1 stk inp)
  show ?case
  proof (cases "read_token inp")
    case NeedMore
    from read_token_complete [OF this] obtain e tok where
      t: "read_token (inp @ e) = Got tok []" by blast
    show ?thesis
    proof (cases "open_token tok stk")
      case (Inl v)
      with t have "exec stk (inp @ e) = Got v []" by (simp add: exec.simps [of stk "inp @ e"])
      then show ?thesis by blast
    next
      case (Inr stk')
      from drain [OF open_token_nonempty [OF Inr]] obtain ext v where
        d: "exec stk' ext = Got v []" by blast
      from read_token_append_Got [OF t, of ext] have "read_token (inp @ e @ ext) = Got tok ext"
        by simp
      with Inr d have "exec stk (inp @ e @ ext) = Got v []"
        by (simp add: exec.simps [of stk "inp @ e @ ext"])
      then show ?thesis by blast
    qed
  next
    case Bad
    with "1.prems" show ?thesis by (simp add: exec.simps [of stk inp])
  next
    case (Got tok r)
    show ?thesis
    proof (cases "open_token tok stk")
      case (Inl v)
      with "1.prems" Got show ?thesis by (simp add: exec.simps [of stk inp])
    next
      case (Inr stk')
      with "1.prems" Got have "exec stk' r = NeedMore" by (simp add: exec.simps [of stk inp])
      from "1.IH" [OF Got Inr this] obtain ext v where "exec stk' (r @ ext) = Got v []" by blast
      with read_token_append_Got [OF Got, of ext] Inr have "exec stk (inp @ ext) = Got v []"
        by (simp add: exec.simps [of stk "inp @ ext"])
      then show ?thesis by blast
    qed
  qed
qed

lemma msgpack_unpack_exec:
  "msgpack_unpack bs =
     (case exec [] bs of
        NeedMore \<Rightarrow> UNPACK_CONTINUE
      | Bad \<Rightarrow> UNPACK_PARSE_ERROR
      | Got mo rest \<Rightarrow>
          if rest = [] then UNPACK_SUCCESS mo (length bs)
          else UNPACK_EXTRA_BYTES mo (length bs - length rest))"
proof (cases "exec [] bs")
  case (Got mo rest)
  from exec_shorter [OF this] have "length rest < length bs" .
  then have "length bs - length rest < length bs \<longleftrightarrow> rest \<noteq> []" by (cases rest) auto
  with Got show ?thesis by (simp add: msgpack_unpack_def Let_def)
qed (simp_all add: msgpack_unpack_def)

lemma complete_object_iff: "complete_object bs \<longleftrightarrow> (\<exists>v. exec [] bs = Got v [])"
  by (auto simp: complete_object_def msgpack_unpack_exec split: step.splits if_splits)

lemma starts_with_object_iff: "starts_with_object bs \<longleftrightarrow> (\<exists>v r. exec [] bs = Got v r)"
  by (auto simp: starts_with_object_def msgpack_unpack_exec split: step.splits)

lemma truncated_iff: "(\<exists>ext. ext \<noteq> [] \<and> complete_object (bs @ ext)) \<longleftrightarrow> exec [] bs = NeedMore"
proof
  assume "\<exists>ext. ext \<noteq> [] \<and> complete_object (bs @ ext)"
  then obtain ext v where "ext \<noteq> []" "exec [] (bs @ ext) = Got v []"
    by (auto simp: complete_object_iff)
  then show "exec [] bs = NeedMore" by (intro exec_prefix)
next
  assume n: "exec [] bs = NeedMore"
  from exec_complete [OF n] obtain ext v where e: "exec [] (bs @ ext) = Got v []" by blast
  with n have "ext \<noteq> []" by auto
  with e show "\<exists>ext. ext \<noteq> [] \<and> complete_object (bs @ ext)"
    by (auto simp: complete_object_iff)
qed

lemma malformed_iff: "(\<forall>ext. \<not> starts_with_object (bs @ ext)) \<longleftrightarrow> exec [] bs = Bad"
proof
  assume a: "\<forall>ext. \<not> starts_with_object (bs @ ext)"
  show "exec [] bs = Bad"
  proof (cases "exec [] bs")
    case NeedMore
    from exec_complete [OF this] a show ?thesis by (auto simp: starts_with_object_iff)
  next
    case Bad
    then show ?thesis .
  next
    case (Got v r)
    with a [THEN spec, of "[]"] show ?thesis by (simp add: starts_with_object_iff)
  qed
next
  assume "exec [] bs = Bad"
  from exec_append_Bad [OF this] show "\<forall>ext. \<not> starts_with_object (bs @ ext)"
    by (simp add: starts_with_object_iff)
qed

section \<open>Properties of the conversion to nodes\<close>

lemma StrictEquals_Ref: "StrictEquals x (Ref a) \<longleftrightarrow> x = Ref a"
  by (cases x) simp_all

lemma enter_Ref:
  "enter (Ref a) mc =
     (if Ref a \<in> set mc then Inl (TypeError circular_msg, out mc) else Inr (mc @ [Ref a]))"
  by (simp add: enter_def list_ex_iff StrictEquals_Ref)

lemma out_push: "out (mc @ [v]) = mc"
  by (simp add: out_def)

text \<open>A conversion that returns a node leaves the guard as it found it; the only
  exception is the one thrown by the guard.\<close>

lemma conv_elems_balanced:
  assumes "\<And>x mc mo mc'. f x mc = Some (Inr mo, mc') \<Longrightarrow> mc' = mc"
    and "conv_elems f xs mc = Some (Inr ns, mc')"
  shows "mc' = mc"
  using assms(2)
proof (induction xs arbitrary: mc ns)
  case Nil
  then show ?case by simp
next
  case (Cons x xs)
  from Cons.prems obtain n mc1 ns' where
    a: "f x mc = Some (Inr n, mc1)" and b: "conv_elems f xs mc1 = Some (Inr ns', mc')"
    by (auto split: option.splits sum.splits prod.splits)
  from assms(1) [OF a] Cons.IH [OF b] show ?case by simp
qed

lemma conv_props_balanced:
  assumes "\<And>x mc mo mc'. f x mc = Some (Inr mo, mc') \<Longrightarrow> mc' = mc"
    and "conv_props f ps ks mc = Some (Inr kvs, mc')"
  shows "mc' = mc"
  using assms(2)
proof (induction ks arbitrary: mc kvs)
  case Nil
  then show ?case by simp
next
  case (Cons k ks)
  from Cons.prems obtain kn mc1 vn mc2 kvs' where
    a: "f k mc = Some (Inr kn, mc1)" and b: "f (Get ps k) mc1 = Some (Inr vn, mc2)"
    and c: "conv_props f ps ks mc2 = Some (Inr kvs', mc')"
    by (auto split: option.splits sum.splits prod.splits)
  from assms(1) [OF a] assms(1) [OF b] Cons.IH [OF c] show ?case by simp
qed

lemma v8_to_msgpack_balanced:
  "v8_to_msgpack n h v mc = Some (Inr mo, mc') \<Longrightarrow> mc' = mc"
proof (induction n arbitrary: v mc mo mc')
  case 0
  then show ?case by simp
next
  case (Suc n)
  show ?case
  proof (cases v)
    case (Ref a)
    show ?thesis
    proof (cases "heap_get h a")
      case None
      with Suc.prems Ref show ?thesis by simp
    next
      case (Some ob)
      show ?thesis
      proof (cases ob)
        case (ArrayObj xs)
        with Suc.prems Ref Some obtain ns mc2 where
          e: "Ref a \<notin> set mc" and c: "conv_elems (v8_to_msgpack n h) xs (mc @ [Ref a]) = Some (Inr ns, mc2)"
          and m: "mc' = out mc2"
          by (auto simp: enter_Ref split: if_splits option.splits sum.splits prod.splits)
        from conv_elems_balanced [OF _ c] Suc.IH have "mc2 = mc @ [Ref a]" by blast
        with m show ?thesis by (simp add: out_push)
      next
        case (BufferObj bs)
        with Suc.prems Ref Some show ?thesis by simp
      next
        case (PlainObj ps)
        with Suc.prems Ref Some obtain kvs mc2 where
          e: "Ref a \<notin> set mc"
          and c: "conv_props (v8_to_msgpack n h) ps (GetPropertyNames ps) (mc @ [Ref a]) = Some (Inr kvs, mc2)"
          and m: "mc' = out mc2"
          by (auto simp: enter_Ref split: if_splits option.splits sum.splits prod.splits)
        from conv_props_balanced [OF _ c] Suc.IH have "mc2 = mc @ [Ref a]" by blast
        with m show ?thesis by (simp add: out_push)
      qed
    qed
  qed (use Suc.prems in auto)
qed

lemma conv_elems_throw:
  assumes "\<And>x mc e mc'. f x mc = Some (Inl e, mc') \<Longrightarrow> e = X"
    and "conv_elems f xs mc = Some (Inl e, mc')"
  shows "e = X"
  using assms(2)
proof (induction xs arbitrary: mc)
  case Nil
  then show ?case by simp
next
  case (Cons x xs)
  then show ?case
    by (auto split: option.splits sum.splits prod.splits dest: assms(1))
qed

lemma conv_props_throw:
  assumes "\<And>x mc e mc'. f x mc = Some (Inl e, mc') \<Longrightarrow> e = X"
    and "conv_props f ps ks mc = Some (Inl e, mc')"
  shows "e = X"
  using assms(2)
proof (induction ks arbitrary: mc)
  case Nil
  then show ?case by simp
next
  case (Cons k ks)
  then show ?case
    by (auto split: option.splits sum.splits prod.splits dest: assms(1))
qed

lemma v8_to_msgpack_throw:
  "v8_to_msgpack n h v mc = Some (Inl e, mc') \<Longrightarrow> e = TypeError circular_msg"
proof (induction n arbitrary: v mc e mc')
  case 0
  then show ?case by simp
next
  case (Suc n)
  show ?case
  proof (cases v)
    case (Ref a)
    show ?thesis
    proof (cases "heap_get h a")
      case None
      with Suc.prems Ref show ?thesis by simp
    next
      case (Some ob)
      show ?thesis
      proof (cases ob)
        case (ArrayObj xs)
        from Suc.prems Ref Some ArrayObj consider "e = TypeError circular_msg"
          | mc1 where "conv_elems (v8_to_msgpack n h) xs mc1 = Some (Inl e, mc')"
          by (auto simp: enter_Ref split: if_splits option.splits sum.splits prod.splits)
        then show ?thesis
        proof cases
          case 2
          from conv_elems_throw [where f = "v8_to_msgpack n h", OF _ 2] Suc.IH
          show ?thesis by blast
        qed
      next
        case (BufferObj bs)
        with Suc.prems Ref Some show ?thesis by simp
      next
        case (PlainObj ps)
        from Suc.prems Ref Some PlainObj consider "e = TypeError circular_msg"
          | mc1 where
            "conv_props (v8_to_msgpack n h) ps (GetPropertyNames ps) mc1 = Some (Inl e, mc')"
          by (auto simp: enter_Ref split: if_splits option.splits sum.splits prod.splits)
        then show ?thesis
        proof cases
          case 2
          from conv_props_throw [where f = "v8_to_msgpack n h", OF _ 2] Suc.IH
          show ?thesis by blast
        qed
      qed
    qed
  qed (use Suc.prems in auto)
qed

text \<open>When a loop returns nodes, every call in it returned a node on the same guard.\<close>

lemma conv_elems_each:
  assumes "\<And>x mc mo mc'. f x mc = Some (Inr mo, mc') \<Longrightarrow> mc' = mc"
    and "conv_elems f xs mc = Some (Inr ns, mc')" and "x \<in> set xs"
  shows "\<exists>mo. f x mc = Some (Inr mo, mc)"
  using assms(2,3)
proof (induction xs arbitrary: ns)
  case Nil
  then show ?case by simp
next
  case (Cons y ys)
  from Cons.prems(1) obtain n mc1 ns' where
    a: "f y mc = Some (Inr n, mc1)" and b: "conv_elems f ys mc1 = Some (Inr ns', mc')"
    by (auto split: option.splits sum.splits prod.splits)
  from assms(1) [OF a] have m: "mc1 = mc" .
  show ?case
  proof (cases "x = y")
    case True
    with a m show ?thesis by simp
  next
    case False
    with Cons.prems(2) have "x \<in> set ys" by simp
    from Cons.IH [OF b [unfolded m] this] show ?thesis .
  qed
qed

lemma conv_props_each:
  assumes "\<And>x mc mo mc'. f x mc = Some (Inr mo, mc') \<Longrightarrow> mc' = mc"
    and "conv_props f ps ks mc = Some (Inr kvs, mc')" and "k \<in> set ks"
  shows "(\<exists>mo. f k mc = Some (Inr mo, mc)) \<and> (\<exists>mo. f (Get ps k) mc = Some (Inr mo, mc))"
  using assms(2,3)
proof (induction ks arbitrary: kvs)
  case Nil
  then show ?case by simp
next
  case (Cons y ys)
  from Cons.prems(1) obtain kn mc1 vn mc2 kvs' where
    a: "f y mc = Some (Inr kn, mc1)" and b: "f (Get ps y) mc1 = Some (Inr vn, mc2)"
    and c: "conv_props f ps ys mc2 = Some (Inr kvs', mc')"
    by (auto split: option.splits sum.splits prod.splits)
  from assms(1) [OF a] have m1: "mc1 = mc" .
  from assms(1) [OF b] m1 have m2: "mc2 = mc" by simp
  show ?case
  proof (cases "k = y")
    case True
    with a b m1 m2 show ?thesis by simp
  next
    case False
    with Cons.prems(2) have "k \<in> set ys" by simp
    from Cons.IH [OF c [unfolded m2] this] show ?thesis .
  qed
qed

lemma entered_twice:
  assumes "Ref a \<in> set mc" "heap_get h a = Some ob" "\<forall>bs. ob \<noteq> BufferObj bs"
  shows "v8_to_msgpack n h (Ref a) mc \<noteq> Some (Inr mo, mc')"
  using assms by (cases n; cases ob) (simp_all add: enter_Ref)

text \<open>An object that is one of its own children is never converted to a node.\<close>

lemma self_reference_no_node:
  assumes "heap_get h a = Some ob" "Ref a \<in> set (children ob)"
  shows "v8_to_msgpack n h (Ref a) mc \<noteq> Some (Inr mo, mc')"
proof
  assume s: "v8_to_msgpack n h (Ref a) mc = Some (Inr mo, mc')"
  then obtain m where n: "n = Suc m" by (cases n) simp_all
  have nb: "\<forall>bs. ob \<noteq> BufferObj bs" using assms(2) by auto
  have in_stack: "Ref a \<in> set (mc @ [Ref a])" by simp
  have bal: "\<And>x mc mo mc'. v8_to_msgpack m h x mc = Some (Inr mo, mc') \<Longrightarrow> mc' = mc"
    by (rule v8_to_msgpack_balanced)
  show False
  proof (cases ob)
    case (ArrayObj xs)
    with s n assms(1) obtain ns mc2 where
      c: "conv_elems (v8_to_msgpack m h) xs (mc @ [Ref a]) = Some (Inr ns, mc2)"
      by (auto simp: enter_Ref split: if_splits option.splits sum.splits prod.splits)
    from assms(2) ArrayObj have "Ref a \<in> set xs" by simp
    from conv_elems_each [where f = "v8_to_msgpack m h", OF _ c this] bal
    have "\<exists>mo. v8_to_msgpack m h (Ref a) (mc @ [Ref a]) = Some (Inr mo, mc @ [Ref a])"
      by blast
    with entered_twice [OF in_stack assms(1) nb] show False by blast
  next
    case (BufferObj bs)
    with assms(2) show False by simp
  next
    case (PlainObj ps)
    with s n assms(1) obtain kvs mc2 where
      c: "conv_props (v8_to_msgpack m h) ps (GetPropertyNames ps) (mc @ [Ref a]) = Some (Inr kvs, mc2)"
      by (auto simp: enter_Ref split: if_splits option.splits sum.splits prod.splits)
    from assms(2) PlainObj obtain k where
      k: "k \<in> set (GetPropertyNames ps)" "Ref a = k \<or> Ref a = Get ps k"
      by auto
    from conv_props_each [where f = "v8_to_msgpack m h", OF _ c k(1)] bal
    have "(\<exists>mo. v8_to_msgpack m h k (mc @ [Ref a]) = Some (Inr mo, mc @ [Ref a])) \<and>
        (\<exists>mo. v8_to_msgpack m h (Get ps k) (mc @ [Ref a]) = Some (Inr mo, mc @ [Ref a]))"
      by blast
    with k(2) have "\<exists>mo. v8_to_msgpack m h (Ref a) (mc @ [Ref a]) = Some (Inr mo, mc @ [Ref a])"
      by auto
    with entered_twice [OF in_stack assms(1) nb] show False by blast
  qed
qed

inductive_cases denotes_RefE: "denotes h (Ref a) t"
inductive_cases denotes_UndefinedE: "denotes h Undefined t"
inductive_cases denotes_NullE: "denotes h Null t"
inductive_cases denotes_BoolE: "denotes h (Bool b) t"
inductive_cases denotes_NumberE: "denotes h (Number d) t"
inductive_cases denotes_StrE: "denotes h (Str s) t"

lemma list_all2_unique:
  assumes "list_all2 (\<lambda>x t. \<forall>t'. P x t' \<longrightarrow> t = t') xs ts" "list_all2 P xs ts'"
  shows "ts = ts'"
  using assms
proof (induction xs ts arbitrary: ts' rule: list_all2_induct)
  case Nil
  then show ?case by simp
next
  case (Cons x xs t ts)
  then show ?case by (cases ts') auto
qed

text \<open>A value of the heap has at most one unfolding.\<close>

lemma denotes_fun: "denotes h v t \<Longrightarrow> denotes h v t' \<Longrightarrow> t = t'"
proof (induction arbitrary: t' rule: denotes.induct)
  case (d_buffer a bs)
  then show ?case by (auto elim: denotes_RefE)
next
  case (d_array a xs ts)
  from d_array.prems d_array.hyps obtain ts' where
    t': "t' = TArray ts'" and l: "list_all2 (denotes h) xs ts'"
    by (auto elim: denotes_RefE)
  have "list_all2 (\<lambda>x t. \<forall>t'. denotes h x t' \<longrightarrow> t = t') xs ts"
    using d_array.IH by (rule list_all2_mono) blast
  from list_all2_unique [OF this l] t' show ?case by simp
next
  case (d_object a ps kvs)
  from d_object.prems d_object.hyps obtain kvs' where
    t': "t' = TObject kvs'"
    and l: "list_all2 (\<lambda>k kv. denotes h k (fst kv) \<and> denotes h (Get ps k) (snd kv))
       (GetPropertyNames ps) kvs'"
    by (auto elim: denotes_RefE)
  have "list_all2 (\<lambda>k kv. \<forall>kv'. denotes h k (fst kv') \<and> denotes h (Get ps k) (snd kv') \<longrightarrow> kv = kv')
      (GetPropertyNames ps) kvs"
    using d_object.IH by (rule list_all2_mono) (auto simp: prod_eq_iff)
  from list_all2_unique [OF this l] t' show ?case by simp
qed (auto elim: denotes_UndefinedE denotes_NullE denotes_BoolE denotes_NumberE denotes_StrE)

lemma tsize_elem: "t \<in> set ts \<Longrightarrow> tsize t < tsize (TArray ts)"
  using member_le_sum_list [of "tsize t" "map tsize ts"] by auto

lemma tsize_prop:
  assumes "kv \<in> set kvs"
  shows "tsize (fst kv) < tsize (TObject kvs)" "tsize (snd kv) < tsize (TObject kvs)"
proof -
  have "(case kv of (k, v) \<Rightarrow> tsize k + tsize v) \<in> set (map (\<lambda>(k, v). tsize k + tsize v) kvs)"
    using assms by auto
  from member_le_sum_list [OF this]
  show "tsize (fst kv) < tsize (TObject kvs)" "tsize (snd kv) < tsize (TObject kvs)"
    by (auto simp: case_prod_beta)
qed

lemma conv_elems_nodes:
  assumes "list_all2 (\<lambda>x t. f x mc = Some (Inr (g t), mc)) xs ts"
  shows "conv_elems f xs mc = Some (Inr (map g ts), mc)"
  using assms by (induction xs ts rule: list_all2_induct) simp_all

lemma conv_props_nodes:
  assumes "list_all2 (\<lambda>k kv. f k mc = Some (Inr (g (fst kv)), mc) \<and>
      f (Get ps k) mc = Some (Inr (g (snd kv)), mc)) ks kvs"
  shows "conv_props f ps ks mc = Some (Inr (map (\<lambda>(k, v). (g k, g v)) kvs), mc)"
  using assms by (induction ks kvs rule: list_all2_induct) (simp_all add: case_prod_beta)


text \<open>A value that has an unfolding is converted to the node of that unfolding, at any
  recursion depth above the size of the unfolding, provided the objects on the guard are
  proper ancestors (their unfoldings are larger).\<close>

lemma convert_denoted:
  assumes "denotes h v t" "tsize t < n"
    and "\<And>a t'. Ref a \<in> set mc \<Longrightarrow> denotes h (Ref a) t' \<Longrightarrow> tsize t < tsize t'"
  shows "v8_to_msgpack n h v mc = Some (Inr (node_of t), mc)"
  using assms
proof (induction n arbitrary: v t mc)
  case 0
  then show ?case by simp
next
  case (Suc n)
  from Suc.prems(1) show ?case
  proof (cases rule: denotes.cases)
    case (d_array a xs ts)
    have fresh: "Ref a \<notin> set mc"
    proof
      assume "Ref a \<in> set mc"
      from Suc.prems(3) [OF this] Suc.prems(1) d_array(1) show False by blast
    qed
    have step: "v8_to_msgpack n h x (mc @ [Ref a]) = Some (Inr (node_of tx), mc @ [Ref a])"
      if "denotes h x tx" "tx \<in> set ts" for x tx
    proof (rule Suc.IH [OF that(1)])
      from tsize_elem [OF that(2)] Suc.prems(2) d_array(2) show "tsize tx < n" by simp
      fix b t' assume b: "Ref b \<in> set (mc @ [Ref a])" "denotes h (Ref b) t'"
      show "tsize tx < tsize t'"
      proof (cases "b = a")
        case True
        with b(2) Suc.prems(1) d_array(1) have "t' = t" by (auto dest: denotes_fun)
        with tsize_elem [OF that(2)] d_array(2) show ?thesis by simp
      next
        case False
        with b(1) have "Ref b \<in> set mc" by simp
        from Suc.prems(3) [OF this b(2)] tsize_elem [OF that(2)] d_array(2)
        show ?thesis by simp
      qed
    qed
    have "list_all2 (\<lambda>x tx. v8_to_msgpack n h x (mc @ [Ref a]) =
        Some (Inr (node_of tx), mc @ [Ref a])) xs ts"
      using d_array(4) step by (auto simp: list_all2_conv_all_nth)
    from conv_elems_nodes [where f = "v8_to_msgpack n h" and g = node_of, OF this] fresh d_array
    show ?thesis
      by (simp add: enter_Ref out_push)
  next
    case (d_object a ps kvs)
    have fresh: "Ref a \<notin> set mc"
    proof
      assume "Ref a \<in> set mc"
      from Suc.prems(3) [OF this] Suc.prems(1) d_object(1) show False by blast
    qed
    have step: "v8_to_msgpack n h x (mc @ [Ref a]) = Some (Inr (node_of tx), mc @ [Ref a])"
      if "denotes h x tx" "tsize tx < tsize t" for x tx
    proof (rule Suc.IH [OF that(1)])
      from that(2) Suc.prems(2) show "tsize tx < n" by simp
      fix b t' assume b: "Ref b \<in> set (mc @ [Ref a])" "denotes h (Ref b) t'"
      show "tsize tx < tsize t'"
      proof (cases "b = a")
        case True
        with b(2) Suc.prems(1) d_object(1) have "t' = t" by (auto dest: denotes_fun)
        with that(2) show ?thesis by simp
      next
        case False
        with b(1) have "Ref b \<in> set mc" by simp
        from Suc.prems(3) [OF this b(2)] that(2) show ?thesis by simp
      qed
    qed
    have "list_all2 (\<lambda>k kv.
        v8_to_msgpack n h k (mc @ [Ref a]) = Some (Inr (node_of (fst kv)), mc @ [Ref a]) \<and>
        v8_to_msgpack n h (Get ps k) (mc @ [Ref a]) = Some (Inr (node_of (snd kv)), mc @ [Ref a]))
        (GetPropertyNames ps) kvs"
      using d_object(4) step tsize_prop [of _ kvs] d_object(2)
      by (auto simp: list_all2_conv_all_nth)
    from conv_props_nodes [where f = "v8_to_msgpack n h" and g = node_of, OF this] fresh d_object
    show ?thesis
      by (simp add: enter_Ref out_push)
  qed simp_all
qed

lemma conv_elems_total:
  assumes "\<And>x mc mo mc'. f x mc = Some (Inr mo, mc') \<Longrightarrow> mc' = mc"
    and "\<forall>x\<in>set xs. \<exists>r. f x mc = Some r"
  shows "\<exists>r. conv_elems f xs mc = Some r"
  using assms(2)
proof (induction xs)
  case Nil
  then show ?case by simp
next
  case (Cons x xs)
  then obtain r where r: "f x mc = Some r" by auto
  obtain res mc1 where p: "r = (res, mc1)" by (cases r)
  show ?case
  proof (cases res)
    case (Inl e)
    with r p show ?thesis by simp
  next
    case (Inr mo)
    with r p assms(1) have m: "mc1 = mc" by blast
    from Cons obtain r' where "conv_elems f xs mc = Some r'" by auto
    with r p Inr m show ?thesis by (auto split: sum.splits prod.splits)
  qed
qed

lemma conv_props_total:
  assumes "\<And>x mc mo mc'. f x mc = Some (Inr mo, mc') \<Longrightarrow> mc' = mc"
    and "\<forall>k\<in>set ks. (\<exists>r. f k mc = Some r) \<and> (\<exists>r. f (Get ps k) mc = Some r)"
  shows "\<exists>r. conv_props f ps ks mc = Some r"
  using assms(2)
proof (induction ks)
  case Nil
  then show ?case by simp
next
  case (Cons k ks)
  then obtain r where r: "f k mc = Some r" by auto
  obtain res mc1 where p: "r = (res, mc1)" by (cases r)
  show ?case
  proof (cases res)
    case (Inl e)
    with r p show ?thesis by simp
  next
    case (Inr kn)
    with r p assms(1) have m: "mc1 = mc" by blast
    from Cons.prems obtain r2 where r2: "f (Get ps k) mc = Some r2" by auto
    obtain res2 mc2 where p2: "r2 = (res2, mc2)" by (cases r2)
    show ?thesis
    proof (cases res2)
      case (Inl e)
      with r p Inr m r2 p2 show ?thesis by simp
    next
      case inr2: (Inr vn)
      with r2 p2 assms(1) have m2: "mc2 = mc" by blast
      from Cons obtain r' where "conv_props f ps ks mc = Some r'" by auto
      with r p Inr m r2 p2 inr2 m2 show ?thesis by (auto split: sum.splits prod.splits)
    qed
  qed
qed

lemma wf_heap_children:
  assumes "wf_heap h" "heap_get h a = Some ob" "x \<in> set (children ob)"
  shows "valid_handle h x"
  using assms by (auto simp: wf_heap_def heap_get_def list_all_iff split: if_splits)

text \<open>On a well-formed heap the conversion returns (a node or the exception) as soon as
  the recursion depth exceeds the number of objects that are not on the guard.\<close>

lemma v8_to_msgpack_total:
  assumes "wf_heap h" "valid_handle h v" "card {a. a < length h \<and> Ref a \<notin> set mc} < n"
  shows "\<exists>r. v8_to_msgpack n h v mc = Some r"
  using assms(2,3)
proof (induction n arbitrary: v mc)
  case 0
  then show ?case by simp
next
  case (Suc n)
  have bal: "\<And>x mc mo mc'. v8_to_msgpack n h x mc = Some (Inr mo, mc') \<Longrightarrow> mc' = mc"
    by (rule v8_to_msgpack_balanced)
  show ?case
  proof (cases v)
    case (Ref a)
    with Suc.prems(1) have a: "a < length h" by (simp add: valid_handle_def)
    then have g: "heap_get h a = Some (h ! a)" by (simp add: heap_get_def)
    show ?thesis
    proof (cases "Ref a \<in> set mc")
      case True
      with Ref g show ?thesis by (cases "h ! a") (simp_all add: enter_Ref)
    next
      case False
      have fin: "finite {b. b < length h \<and> Ref b \<notin> set mc}" by simp
      have "{b. b < length h \<and> Ref b \<notin> set (mc @ [Ref a])} =
          {b. b < length h \<and> Ref b \<notin> set mc} - {a}" by auto
      moreover have "a \<in> {b. b < length h \<and> Ref b \<notin> set mc}" using a False by simp
      ultimately have c: "card {b. b < length h \<and> Ref b \<notin> set (mc @ [Ref a])} < n"
      proof -
        assume e: "{b. b < length h \<and> Ref b \<notin> set (mc @ [Ref a])} =
          {b. b < length h \<and> Ref b \<notin> set mc} - {a}"
        assume m: "a \<in> {b. b < length h \<and> Ref b \<notin> set mc}"
        from card_Suc_Diff1 [OF fin m] Suc.prems(2) show ?thesis unfolding e by simp
      qed
      have sub: "\<exists>r. v8_to_msgpack n h x (mc @ [Ref a]) = Some r" if "x \<in> set (children (h ! a))" for x
        using Suc.IH [OF wf_heap_children [OF assms(1) g that] c] .
      show ?thesis
      proof (cases "h ! a")
        case (ArrayObj xs)
        with sub have "\<forall>x\<in>set xs. \<exists>r. v8_to_msgpack n h x (mc @ [Ref a]) = Some r" by simp
        from conv_elems_total [where f = "v8_to_msgpack n h", OF _ this] bal
        obtain r where "conv_elems (v8_to_msgpack n h) xs (mc @ [Ref a]) = Some r" by blast
        with Ref g ArrayObj False show ?thesis
          by (auto simp: enter_Ref split: sum.splits prod.splits)
      next
        case (BufferObj bs)
        with Ref g show ?thesis by simp
      next
        case (PlainObj ps)
        with sub have "\<forall>k\<in>set (GetPropertyNames ps).
            (\<exists>r. v8_to_msgpack n h k (mc @ [Ref a]) = Some r) \<and>
            (\<exists>r. v8_to_msgpack n h (Get ps k) (mc @ [Ref a]) = Some r)" by auto
        from conv_props_total [where f = "v8_to_msgpack n h", OF _ this] bal
        obtain r where
          "conv_props (v8_to_msgpack n h) ps (GetPropertyNames ps) (mc @ [Ref a]) = Some r"
          by blast
        with Ref g PlainObj False show ?thesis
          by (auto simp: enter_Ref split: sum.splits prod.splits)
      qed
    qed
  qed simp_all
qed

lemma pack_single:
  "pack n h [v] =
     (case v8_to_msgpack n h v [] of
        None \<Rightarrow> None
      | Some (r, mc) \<Rightarrow>
          Some (if mc \<noteq> [] then Inl Abort
                else (case r of Inl e \<Rightarrow> Inl (Throw e)
                      | Inr mo \<Rightarrow> Inr (msgpack_pack_object mo))))"
  by (simp add: pack_def pack_run_def pack_loop.simps arg_def
      split: option.splits sum.splits prod.splits)

lemma denotes_examples:
  "denotes [ArrayObj [Ref 1, Ref 1], ArrayObj []] (Ref 0) (TArray [TArray [], TArray []])"
  "denotes [PlainObj [(Str [0x61], Ref 1), (Str [0x62], Ref 2)], ArrayObj [], ArrayObj []] (Ref 0)
     (TObject [(TString [0x61], TArray []), (TString [0x62], TArray [])])"
  by (auto intro!: denotes.intros simp: heap_get_def GetPropertyNames_def Get_def)

section \<open>The node of a number\<close>

lemma val_whole:
  assumes "frac (d_val d) = 0"
  shows "d_val d = (if d_neg d then - of_nat (d_mag d) else of_nat (d_mag d))"
proof (cases "1075 \<le> d_scale d")
  case True
  then show ?thesis by (simp add: d_val_def d_mag_def)
next
  case False
  then have lt: "d_scale d < 1075" by simp
  from assms val_int_iff_dvd [OF lt] have "2 ^ (1075 - d_scale d) dvd d_sig d" by simp
  then have "(of_nat (d_sig d) / of_nat (2 ^ (1075 - d_scale d)) :: rat) =
      of_nat (d_sig d div 2 ^ (1075 - d_scale d))"
    by (metis power_eq_0_iff zero_neq_numeral dvd_div_mult_self
        nonzero_mult_div_cancel_right of_nat_mult of_nat_eq_0_iff)
  with False show ?thesis by (simp add: d_val_def d_mag_def)
qed

lemma sint_neg_of_nat_64:
  assumes "n \<le> 2 ^ 63"
  shows "sint (- word_of_nat n :: 64 word) = - int n"
proof -
  have a: "(- word_of_nat n :: 64 word) = word_of_int (- int n)" by simp
  have c: "sint (word_of_int (- int n) :: 64 word) = - int n"
    using assms by (simp only: signed_of_int) (simp add: signed_take_bit_int_eq_self)
  show ?thesis unfolding a c ..
qed

lemma number_node_positive:
  assumes f: "is_finite d" and w: "frac (d_val d) = 0" and p: "0 < d_val d"
  shows "\<exists>u. number_node d = POSITIVE_INTEGER u \<and>
           (d_val d < 2 ^ 64 \<longrightarrow> of_nat (unat u) = d_val d) \<and> (2 ^ 64 \<le> d_val d \<longrightarrow> u = 0)"
proof -
  from p d_gt0_iff [OF f] have g: "d_gt0 d" by simp
  then have n: "\<not> d_neg d" "\<not> is_nan d" by (simp_all add: d_gt0_def)
  from w whole_iff_frac [OF f] have t: "d_eq (d_trunc d) d" by simp
  from val_whole [OF w] n have v: "d_val d = of_nat (d_mag d)" by simp
  have lt: "d_val d < 2 ^ 64 \<longleftrightarrow> d_mag d < 2 ^ 64"
  proof -
    have "(of_nat (d_mag d) :: rat) < of_nat (2 ^ 64) \<longleftrightarrow> d_mag d < 2 ^ 64"
      by (simp only: of_nat_less_iff)
    then show ?thesis by (simp add: v)
  qed
  have nn: "number_node d = POSITIVE_INTEGER (d_to_u64 d)" using g t by (simp add: number_node_def)
  show ?thesis
  proof (cases "d_mag d < 2 ^ 64")
    case True
    then have "d_to_u64 d = word_of_nat (d_mag d)"
      using n f by (simp add: d_to_u64_def cvttsd2si_def)
    then have nn': "number_node d = POSITIVE_INTEGER (word_of_nat (d_mag d))" using nn by simp
    have e: "unat (word_of_nat (d_mag d) :: 64 word) = d_mag d" using True by (rule unat_double)
    have "(of_nat (unat (word_of_nat (d_mag d) :: 64 word)) :: rat) = d_val d"
      by (simp only: e v)
    moreover have "word_of_nat (d_mag d) = (0 :: 64 word)" if "2 ^ 64 \<le> d_val d"
      using that lt True by simp
    ultimately show ?thesis using nn' by blast
  next
    case False
    then have "d_to_u64 d = 0" using n f by (simp add: d_to_u64_def)
    with False lt nn show ?thesis by simp
  qed
qed

lemma number_node_not_positive:
  assumes f: "is_finite d" and w: "frac (d_val d) = 0" and p: "d_val d \<le> 0"
  shows "\<exists>i. number_node d = NEGATIVE_INTEGER i \<and>
           (- (2 ^ 63) \<le> d_val d \<longrightarrow> of_int (sint i) = d_val d) \<and>
           (d_val d < - (2 ^ 63) \<longrightarrow> i = 0x8000000000000000)"
proof -
  from p d_gt0_iff [OF f] have g: "\<not> d_gt0 d" by simp
  from w whole_iff_frac [OF f] have t: "d_eq (d_trunc d) d" by simp
  have nn: "number_node d = NEGATIVE_INTEGER (d_to_i64 d)" using g t by (simp add: number_node_def)
  show ?thesis
  proof (cases "d_neg d")
    case True
    from val_whole [OF w] True have v: "d_val d = - of_nat (d_mag d)" by simp
    have ge: "- (2 ^ 63) \<le> d_val d \<longleftrightarrow> d_mag d \<le> 2 ^ 63"
    proof -
      have "(of_nat (d_mag d) :: rat) \<le> of_nat (2 ^ 63) \<longleftrightarrow> d_mag d \<le> 2 ^ 63"
        by (simp only: of_nat_le_iff)
      then show ?thesis by (simp add: v)
    qed
    show ?thesis
    proof (cases "d_mag d \<le> 2 ^ 63")
      case le: True
      then have "d_to_i64 d = - word_of_nat (d_mag d)"
        using True f by (auto simp: d_to_i64_def cvttsd2si_def)
      then have nn': "number_node d = NEGATIVE_INTEGER (- word_of_nat (d_mag d))" using nn by simp
      have "(of_int (sint (- word_of_nat (d_mag d) :: 64 word)) :: rat) = d_val d"
        by (simp only: sint_neg_of_nat_64 [OF le] v of_int_minus of_int_of_nat_eq)
      moreover have "- word_of_nat (d_mag d) = (0x8000000000000000 :: 64 word)"
        if "d_val d < - (2 ^ 63)"
        using that ge le by simp
      ultimately show ?thesis using nn' by blast
    next
      case gt: False
      then have "d_to_i64 d = 0x8000000000000000"
        using True f by (simp add: d_to_i64_def cvttsd2si_def)
      with ge gt nn show ?thesis by simp
    qed
  next
    case False
    from val_whole [OF w] False have v: "d_val d = of_nat (d_mag d)" by simp
    with p have "d_mag d = 0" by simp
    then have "d_to_i64 d = 0" using False f by (simp add: d_to_i64_def cvttsd2si_def)
    with nn v \<open>d_mag d = 0\<close> show ?thesis by simp
  qed
qed

lemma number_node_fraction:
  assumes f: "is_finite d" and w: "frac (d_val d) \<noteq> 0"
  shows "number_node d = DOUBLE d"
  using w whole_iff_frac [OF f] by (simp add: number_node_def)

lemma number_node_special:
  "is_nan d \<Longrightarrow> number_node d = DOUBLE d"
  "is_inf d \<Longrightarrow> number_node d =
     (if d_neg d then NEGATIVE_INTEGER 0x8000000000000000 else POSITIVE_INTEGER 0)"
proof -
  assume "is_nan d"
  then show "number_node d = DOUBLE d" by (simp add: number_node_def d_eq_def)
next
  assume i: "is_inf d"
  then have "d_trunc d = d" "\<not> is_nan d" "\<not> is_zero d" "\<not> is_finite d"
    by (simp_all add: is_inf_def d_trunc_def is_nan_def is_zero_def is_finite_def)
  then show "number_node d =
     (if d_neg d then NEGATIVE_INTEGER 0x8000000000000000 else POSITIVE_INTEGER 0)"
    by (simp add: number_node_def d_eq_def d_gt0_def d_to_u64_def d_to_i64_def cvttsd2si_def)
qed

section \<open>Cycles and the guard\<close>

text \<open>
  The conversion of an object runs over its \<open>children\<close> with the object on the guard. An
  exception leaves the guard one entry shorter than it was when \<^verbatim>\<open>enter\<close> threw, so an
  exception thrown below an object that was entered leaves that object on the guard. A
  conversion that returns a node has met no cycle: the value has an unfolding.
\<close>

lemma conv_props_as_elems:
  "conv_props f ps ks mc =
     (case conv_elems f (concat (map (\<lambda>k. [k, Get ps k]) ks)) mc of
        None \<Rightarrow> None
      | Some (Inl e, mc') \<Rightarrow> Some (Inl e, mc')
      | Some (Inr ns, mc') \<Rightarrow> Some (Inr (pairs ns), mc'))"
  by (induction ks arbitrary: mc) (auto split: option.splits sum.splits prod.splits)

lemma v8_composite:
  assumes "heap_get h a = Some ob" "\<forall>bs. ob \<noteq> BufferObj bs" "Ref a \<notin> set mc"
  shows "v8_to_msgpack (Suc n) h (Ref a) mc =
     (case conv_elems (v8_to_msgpack n h) (children ob) (mc @ [Ref a]) of
        None \<Rightarrow> None
      | Some (Inl e, mc') \<Rightarrow> Some (Inl e, mc')
      | Some (Inr ns, mc') \<Rightarrow>
          Some (Inr (case ob of ArrayObj xs \<Rightarrow> ARRAY ns | _ \<Rightarrow> MAP (pairs ns)), out mc'))"
  using assms
  by (cases ob) (auto simp: enter_Ref conv_props_as_elems split: option.splits sum.splits prod.splits)

lemma v8_reentered:
  assumes "heap_get h a = Some ob" "\<forall>bs. ob \<noteq> BufferObj bs" "Ref a \<in> set mc"
  shows "v8_to_msgpack (Suc n) h (Ref a) mc = Some (Inl (TypeError circular_msg), out mc)"
  using assms by (cases ob) (simp_all add: enter_Ref)

lemma conv_elems_prefix:
  assumes "\<forall>y\<in>set pre. \<exists>mo. f y mc = Some (Inr mo, mc)" "f x mc = Some (Inl e, mc')"
  shows "conv_elems f (pre @ x # post) mc = Some (Inl e, mc')"
  using assms by (induction pre) auto

lemma conv_elems_throw_depth:
  assumes bal: "\<And>x mc mo mc'. f x mc = Some (Inr mo, mc') \<Longrightarrow> mc' = mc"
    and dep: "\<And>x mc e mc'. f x mc = Some (Inl e, mc') \<Longrightarrow> length mc \<le> Suc (length mc')"
    and "conv_elems f xs mc = Some (Inl e, mc')"
  shows "length mc \<le> Suc (length mc')"
  using assms(3)
proof (induction xs arbitrary: mc)
  case Nil
  then show ?case by simp
next
  case (Cons x xs)
  show ?case
  proof (cases "f x mc")
    case None
    with Cons.prems show ?thesis by simp
  next
    case (Some r)
    obtain res mc1 where r: "r = (res, mc1)" by (cases r)
    show ?thesis
    proof (cases res)
      case (Inl e')
      with Cons.prems Some r have "f x mc = Some (Inl e, mc')" by simp
      from dep [OF this] show ?thesis .
    next
      case (Inr mo)
      with Some r have s: "f x mc = Some (Inr mo, mc1)" by simp
      from bal [OF s] have m: "mc1 = mc" .
      from Cons.prems s m have "conv_elems f xs mc = Some (Inl e, mc')"
        by (auto split: option.splits sum.splits prod.splits)
      from Cons.IH [OF this] show ?thesis .
    qed
  qed
qed

lemma v8_throw_depth:
  "v8_to_msgpack n h v mc = Some (Inl e, mc') \<Longrightarrow>
   length mc \<le> Suc (length mc') \<and> (Ref a = v \<and> Ref a \<notin> set mc \<longrightarrow> length mc \<le> length mc')"
proof (induction n arbitrary: v mc e mc' a)
  case 0
  then show ?case by simp
next
  case (Suc n)
  show ?case
  proof (cases v)
    case (Ref b)
    show ?thesis
    proof (cases "heap_get h b")
      case None
      with Suc.prems Ref show ?thesis by simp
    next
      case (Some ob)
      show ?thesis
      proof (cases "\<exists>bs. ob = BufferObj bs")
        case True
        with Suc.prems Ref Some show ?thesis by auto
      next
        case False
        then have nb: "\<forall>bs. ob \<noteq> BufferObj bs" by simp
        show ?thesis
        proof (cases "Ref b \<in> set mc")
          case True
          from v8_reentered [OF Some nb True, of n] Suc.prems Ref have "mc' = out mc" by simp
          with True Ref show ?thesis by (auto simp: out_def)
        next
          case fresh: False
          from v8_composite [OF Some nb fresh, of n] Suc.prems Ref
          have c: "conv_elems (v8_to_msgpack n h) (children ob) (mc @ [Ref b]) = Some (Inl e, mc')"
            by (auto split: option.splits sum.splits prod.splits)
          have "length (mc @ [Ref b]) \<le> Suc (length mc')"
          proof (rule conv_elems_throw_depth [OF _ _ c])
            show "\<And>x mc mo mc'. v8_to_msgpack n h x mc = Some (Inr mo, mc') \<Longrightarrow> mc' = mc"
              by (rule v8_to_msgpack_balanced)
            show "\<And>x mc e mc'. v8_to_msgpack n h x mc = Some (Inl e, mc') \<Longrightarrow>
                length mc \<le> Suc (length mc')"
              using Suc.IH by blast
          qed
          then show ?thesis by simp
        qed
      qed
    qed
  qed (use Suc.prems in auto)
qed

lemma list_all2_exists: "\<forall>x\<in>set xs. \<exists>y. P x y \<Longrightarrow> \<exists>ys. list_all2 P xs ys"
proof (induction xs)
  case Nil
  then show ?case by simp
next
  case (Cons x xs)
  then obtain y ys where "P x y" "list_all2 P xs ys" by auto
  then have "list_all2 P (x # xs) (y # ys)" by simp
  then show ?case by blast
qed

lemma success_denotes:
  "v8_to_msgpack n h v mc = Some (Inr mo, mc') \<Longrightarrow> \<exists>t. denotes h v t"
proof (induction n arbitrary: v mc mo mc')
  case 0
  then show ?case by simp
next
  case (Suc n)
  have bal: "\<And>x mc mo mc'. v8_to_msgpack n h x mc = Some (Inr mo, mc') \<Longrightarrow> mc' = mc"
    by (rule v8_to_msgpack_balanced)
  show ?case
  proof (cases v)
    case (Ref a)
    show ?thesis
    proof (cases "heap_get h a")
      case None
      with Suc.prems Ref show ?thesis by simp
    next
      case (Some ob)
      show ?thesis
      proof (cases ob)
        case (ArrayObj xs)
        with Suc.prems Ref Some obtain ns mc2 where
          c: "conv_elems (v8_to_msgpack n h) xs (mc @ [Ref a]) = Some (Inr ns, mc2)"
          by (auto simp: enter_Ref split: if_splits option.splits sum.splits prod.splits)
        have "\<forall>x\<in>set xs. \<exists>t. denotes h x t"
        proof
          fix x assume "x \<in> set xs"
          from conv_elems_each [where f = "v8_to_msgpack n h", OF _ c this] bal
          obtain mo' where "v8_to_msgpack n h x (mc @ [Ref a]) = Some (Inr mo', mc @ [Ref a])"
            by blast
          from Suc.IH [OF this] show "\<exists>t. denotes h x t" .
        qed
        from list_all2_exists [OF this] obtain ts where "list_all2 (denotes h) xs ts" by blast
        with Some ArrayObj Ref show ?thesis by (auto intro: denotes.d_array)
      next
        case (BufferObj bs)
        with Some Ref show ?thesis by (auto intro: denotes.d_buffer)
      next
        case (PlainObj ps)
        with Suc.prems Ref Some obtain kvs mc2 where
          c: "conv_props (v8_to_msgpack n h) ps (GetPropertyNames ps) (mc @ [Ref a]) =
              Some (Inr kvs, mc2)"
          by (auto simp: enter_Ref split: if_splits option.splits sum.splits prod.splits)
        have "\<forall>k\<in>set (GetPropertyNames ps).
            \<exists>kv. denotes h k (fst kv) \<and> denotes h (Get ps k) (snd kv)"
        proof
          fix k assume "k \<in> set (GetPropertyNames ps)"
          from conv_props_each [where f = "v8_to_msgpack n h", OF _ c this] bal
          obtain m1 m2 where
            "v8_to_msgpack n h k (mc @ [Ref a]) = Some (Inr m1, mc @ [Ref a])"
            "v8_to_msgpack n h (Get ps k) (mc @ [Ref a]) = Some (Inr m2, mc @ [Ref a])"
            by blast
          from Suc.IH [OF this(1)] Suc.IH [OF this(2)]
          obtain t1 t2 where "denotes h k t1" "denotes h (Get ps k) t2" by blast
          then have "denotes h k (fst (t1, t2)) \<and> denotes h (Get ps k) (snd (t1, t2))" by simp
          then show "\<exists>kv. denotes h k (fst kv) \<and> denotes h (Get ps k) (snd kv)" by blast
        qed
        from list_all2_exists [OF this] obtain kvs' where
          "list_all2 (\<lambda>k kv. denotes h k (fst kv) \<and> denotes h (Get ps k) (snd kv))
             (GetPropertyNames ps) kvs'"
          by blast
        with Some PlainObj Ref show ?thesis by (auto intro: denotes.d_object)
      qed
    qed
  qed (auto intro: denotes.intros)
qed

lemma denotes_children:
  assumes "denotes h (Ref a) t" "heap_get h a = Some ob" "x \<in> set (children ob)"
  shows "\<exists>t'. denotes h x t' \<and> tsize t' < tsize t"
  using assms(1)
proof (cases rule: denotes.cases)
  case (d_buffer bs)
  with assms(2,3) show ?thesis by auto
next
  case (d_array xs ts)
  with assms(2,3) have "x \<in> set xs" by auto
  then obtain i where i: "i < length xs" "xs ! i = x" by (auto simp: in_set_conv_nth)
  with d_array have "denotes h x (ts ! i)" "ts ! i \<in> set ts"
    by (auto simp: list_all2_conv_all_nth)
  with tsize_elem [of "ts ! i" ts] d_array show ?thesis by blast
next
  case (d_object ps kvs)
  with assms(2,3) obtain k where k: "k \<in> set (GetPropertyNames ps)" "x = k \<or> x = Get ps k"
    by auto
  then obtain i where i: "i < length (GetPropertyNames ps)" "GetPropertyNames ps ! i = k"
    by (auto simp: in_set_conv_nth)
  with d_object have d: "denotes h k (fst (kvs ! i))" "denotes h (Get ps k) (snd (kvs ! i))"
    "kvs ! i \<in> set kvs"
    by (auto simp: list_all2_conv_all_nth)
  from tsize_prop [OF d(3)] d(1,2) k(2) d_object show ?thesis by auto
qed

lemma no_unfolding_self:
  assumes "heap_get h a = Some ob" "Ref a \<in> set (children ob)"
  shows "\<not> denotes h (Ref a) t"
proof
  assume d: "denotes h (Ref a) t"
  from denotes_children [OF d assms] obtain t' where "denotes h (Ref a) t'" "tsize t' < tsize t"
    by blast
  with denotes_fun [OF d this(1)] show False by simp
qed

lemma children_not_buffer: "x \<in> set (children ob) \<Longrightarrow> \<forall>bs. ob \<noteq> BufferObj bs"
  by (cases ob) auto

lemma convert_prefix:
  assumes "\<forall>t. \<not> denotes h (Ref a) t" "\<forall>y\<in>set pre. \<exists>t. denotes h y t \<and> tsize t < n"
  shows "\<forall>y\<in>set pre. \<exists>mo. v8_to_msgpack n h y [Ref a] = Some (Inr mo, [Ref a])"
proof
  fix y assume "y \<in> set pre"
  with assms(2) obtain t where t: "denotes h y t" "tsize t < n" by blast
  have "v8_to_msgpack n h y [Ref a] = Some (Inr (node_of t), [Ref a])"
    using t assms(1) by (intro convert_denoted) auto
  then show "\<exists>mo. v8_to_msgpack n h y [Ref a] = Some (Inr mo, [Ref a])" by blast
qed

lemma direct_cycle_throws:
  assumes ob: "heap_get h a = Some ob" and ch: "children ob = pre @ Ref a # post"
    and pre: "\<forall>y\<in>set pre. \<exists>t. denotes h y t \<and> tsize t < Suc n"
  shows "v8_to_msgpack (Suc (Suc n)) h (Ref a) [] = Some (Inl (TypeError circular_msg), [])"
proof -
  from ch have mem: "Ref a \<in> set (children ob)" by simp
  from children_not_buffer [OF mem] have nb: "\<forall>bs. ob \<noteq> BufferObj bs" .
  from no_unfolding_self [OF ob mem] have nd: "\<forall>t. \<not> denotes h (Ref a) t" by blast
  have "v8_to_msgpack (Suc n) h (Ref a) [Ref a] = Some (Inl (TypeError circular_msg), out [Ref a])"
    by (rule v8_reentered [OF ob nb]) simp
  then have x: "v8_to_msgpack (Suc n) h (Ref a) [Ref a] = Some (Inl (TypeError circular_msg), [])"
    by (simp add: out_def)
  from conv_elems_prefix [where f = "v8_to_msgpack (Suc n) h" and pre = pre and x = "Ref a"
      and mc = "[Ref a]" and post = post, OF convert_prefix [OF nd pre] x]
  have "conv_elems (v8_to_msgpack (Suc n) h) (children ob) ([] @ [Ref a]) =
      Some (Inl (TypeError circular_msg), [])"
    by (simp add: ch)
  with v8_composite [OF ob nb, of "[]" "Suc n"] show ?thesis by simp
qed

lemma nested_cycle_leaves_guard:
  assumes wf: "wf_heap h" and fuel: "length h < n"
    and ob: "heap_get h a = Some ob" and ch: "children ob = pre @ x # post"
    and pre: "\<forall>y\<in>set pre. \<exists>t. denotes h y t \<and> tsize t < n"
    and x: "x \<noteq> Ref a" "\<forall>t. \<not> denotes h x t"
  shows "\<exists>mc. v8_to_msgpack (Suc n) h (Ref a) [] = Some (Inl (TypeError circular_msg), mc) \<and> mc \<noteq> []"
proof -
  from ch have mem: "x \<in> set (children ob)" by simp
  from children_not_buffer [OF mem] have nb: "\<forall>bs. ob \<noteq> BufferObj bs" .
  have nd: "\<forall>t. \<not> denotes h (Ref a) t"
  proof (intro allI notI)
    fix t assume "denotes h (Ref a) t"
    from denotes_children [OF this ob mem] x(2) show False by blast
  qed
  from wf_heap_children [OF wf ob mem] have v: "valid_handle h x" .
  have "card {b. b < length h \<and> Ref b \<notin> set [Ref a]} \<le> card {b. b < length h}"
    by (intro card_mono) auto
  with fuel have "card {b. b < length h \<and> Ref b \<notin> set [Ref a]} < n" by simp
  from v8_to_msgpack_total [OF wf v this] obtain res mc where
    r: "v8_to_msgpack n h x [Ref a] = Some (res, mc)" by auto
  show ?thesis
  proof (cases res)
    case (Inr mo)
    with r success_denotes [of n h x "[Ref a]" mo mc] x(2) show ?thesis by blast
  next
    case (Inl e)
    with r have t: "v8_to_msgpack n h x [Ref a] = Some (Inl e, mc)" by simp
    from v8_to_msgpack_throw [OF t] have e: "e = TypeError circular_msg" .
    obtain b where b: "x = Ref b"
      using t by (cases n; cases x) auto
    with x(1) have "Ref b \<notin> set [Ref a]" by simp
    with v8_throw_depth [OF t, of b] b have "length [Ref a] \<le> length mc" by simp
    then have ne: "mc \<noteq> []" by auto
    from conv_elems_prefix [where f = "v8_to_msgpack n h" and pre = pre and x = x
        and mc = "[Ref a]" and post = post, OF convert_prefix [OF nd pre] t]
    have "conv_elems (v8_to_msgpack n h) (children ob) ([] @ [Ref a]) = Some (Inl e, mc)"
      by (simp add: ch)
    with v8_composite [OF ob nb, of "[]" n] e ne show ?thesis by simp
  qed
qed

section \<open>Decoding what was packed\<close>

lemma be_8:
  "be 8 n = [word_of_nat (n div 256 ^ 7), word_of_nat (n div 256 ^ 6),
    word_of_nat (n div 256 ^ 5), word_of_nat (n div 256 ^ 4), word_of_nat (n div 256 ^ 3),
    word_of_nat (n div 256 ^ 2), word_of_nat (n div 256), word_of_nat n]"
proof -
  have "(8::nat) = Suc (Suc (Suc (Suc (Suc (Suc (Suc (Suc 0)))))))" by simp
  then show ?thesis by (simp only: be.simps) simp
qed

lemma unpack_packed:
  assumes "sizes_ok mo"
  shows "unpack [BufferObj (msgpack_pack_object mo)] [Ref 0] br =
      (Inr (msgpack_to_v8 (canon mo)), Some 0)"
proof -
  have "msgpack_unpack (msgpack_pack_object mo) =
      UNPACK_SUCCESS (canon mo) (length (msgpack_pack_object mo))"
    by (simp add: msgpack_unpack_def exec_pack_top [OF assms])
  then show ?thesis
    by (simp add: unpack_def arg_def Buffer_HasInstance_def Buffer_Data_def heap_get_def
        Integer_New_def int_to_double_def nat_to_double_def)
qed

section \<open>Properties of the conversion to values\<close>














section \<open>Claims about \<^verbatim>\<open>pack\<close>\<close>

text \<open>
  C1. The call \<^verbatim>\<open>pack(1, "x")\<close> should return the encoding of 1 followed by the encoding
  of \<^verbatim>\<open>"x"\<close>, the bytes \<open>01 a1 78\<close>. The loop converts \<^verbatim>\<open>args[0]\<close> in every round,
  so the code returns the encoding of 1 twice, \<open>01 01\<close>; packed alone, the two arguments
  give \<open>01\<close> and \<open>a1 78\<close>.
\<close>

theorem pack_repeats_first_argument:
  "pack (Suc 0) [] [Number 0x3FF0000000000000, Str [0x78]] = Some (Inr [0x01, 0x01]) \<and>
   pack (Suc 0) [] [Number 0x3FF0000000000000] = Some (Inr [0x01]) \<and>
   pack (Suc 0) [] [Str [0x78]] = Some (Inr [0xa1, 0x78])"
  by (simp add: pack_defs number_node_def double_defs)

text \<open>
  C3. At the end of every call of \<^verbatim>\<open>pack\<close> the guard should be empty. For
  \<^verbatim>\<open>a = []; b = [a]; a.push(b); pack(a)\<close> (\<open>a\<close> at address 0, \<open>b\<close> at address 1) the
  guard holds \<open>a\<close> and \<open>b\<close> when \<open>a\<close> is met again; \<^verbatim>\<open>enter\<close> pops \<open>b\<close> and throws,
  and nothing pops \<open>a\<close>: the call ends with \<open>a\<close> still in the guard.
\<close>

theorem pack_cycle_leaves_guard_nonempty:
  "pack_run (Suc (Suc (Suc 0))) [ArrayObj [Ref 1], ArrayObj [Ref 0]] [Ref 0] =
     Some (Inl (TypeError circular_msg), [Ref 0])"
  by (simp add: pack_defs)

section \<open>Claims about numbers\<close>

text \<open>
  C4. For a number \<open>d\<close>, \<^verbatim>\<open>v8_to_msgpack\<close> returns, and \<^verbatim>\<open>pack\<close> writes: a double node
  holding \<open>d\<close> when \<open>d\<close> has a fractional part; otherwise, when \<open>d > 0\<close>, an unsigned
  integer node, and else (zero and the negative whole numbers) a signed integer node. The
  integer of the node is the value of \<open>d\<close> when it fits 64 bits. Where it does not fit,
  the C cast is undefined, and the program compiled for x86-64 stores 0 in the unsigned
  node and \<open>- (2 ^ 63)\<close> in the signed node. The infinities have no fractional part and
  follow their sign, out of range; NaN differs from its own truncation and gives a double
  node. The guard is left as it was. The witness converts and packs 1.5, 0, -5, 5, 1e10,
  \<open>2 ^ 64\<close>, the negative infinity and NaN.
\<close>

theorem number_node_heuristic:
  "(is_finite d \<and> frac (d_val d) \<noteq> 0 \<longrightarrow>
      v8_to_msgpack (Suc n) h (Number d) mc = Some (Inr (DOUBLE d), mc) \<and>
      pack (Suc n) h [Number d] = Some (Inr (pack_double d))) \<and>
   (is_finite d \<and> frac (d_val d) = 0 \<and> 0 < d_val d \<longrightarrow>
      (\<exists>u. v8_to_msgpack (Suc n) h (Number d) mc = Some (Inr (POSITIVE_INTEGER u), mc) \<and>
           pack (Suc n) h [Number d] = Some (Inr (pack_uint64 u)) \<and>
           (d_val d < 2 ^ 64 \<longrightarrow> of_nat (unat u) = d_val d) \<and>
           (2 ^ 64 \<le> d_val d \<longrightarrow> u = 0))) \<and>
   (is_finite d \<and> frac (d_val d) = 0 \<and> d_val d \<le> 0 \<longrightarrow>
      (\<exists>i. v8_to_msgpack (Suc n) h (Number d) mc = Some (Inr (NEGATIVE_INTEGER i), mc) \<and>
           pack (Suc n) h [Number d] = Some (Inr (pack_int64 i)) \<and>
           (- (2 ^ 63) \<le> d_val d \<longrightarrow> of_int (sint i) = d_val d) \<and>
           (d_val d < - (2 ^ 63) \<longrightarrow> i = 0x8000000000000000))) \<and>
   (is_inf d \<longrightarrow>
      v8_to_msgpack (Suc n) h (Number d) mc =
        Some (Inr (if d_neg d then NEGATIVE_INTEGER 0x8000000000000000 else POSITIVE_INTEGER 0),
          mc)) \<and>
   (is_nan d \<longrightarrow> v8_to_msgpack (Suc n) h (Number d) mc = Some (Inr (DOUBLE d), mc))"
proof -
  have c: "v8_to_msgpack (Suc n) h (Number d) mc = Some (Inr (number_node d), mc)" for mc
    by simp
  have p: "pack (Suc n) h [Number d] = Some (Inr (msgpack_pack_object (number_node d)))"
    by (simp add: pack_single)
  have c1: "is_finite d \<and> frac (d_val d) \<noteq> 0 \<longrightarrow>
      v8_to_msgpack (Suc n) h (Number d) mc = Some (Inr (DOUBLE d), mc) \<and>
      pack (Suc n) h [Number d] = Some (Inr (pack_double d))"
    by (simp add: p number_node_fraction)
  have c2: "is_finite d \<and> frac (d_val d) = 0 \<and> 0 < d_val d \<longrightarrow>
      (\<exists>u. v8_to_msgpack (Suc n) h (Number d) mc = Some (Inr (POSITIVE_INTEGER u), mc) \<and>
           pack (Suc n) h [Number d] = Some (Inr (pack_uint64 u)) \<and>
           (d_val d < 2 ^ 64 \<longrightarrow> of_nat (unat u) = d_val d) \<and>
           (2 ^ 64 \<le> d_val d \<longrightarrow> u = 0))"
  proof
    assume "is_finite d \<and> frac (d_val d) = 0 \<and> 0 < d_val d"
    then obtain u where u: "number_node d = POSITIVE_INTEGER u"
      "d_val d < 2 ^ 64 \<longrightarrow> of_nat (unat u) = d_val d" "2 ^ 64 \<le> d_val d \<longrightarrow> u = 0"
      using number_node_positive [of d] by blast
    have "v8_to_msgpack (Suc n) h (Number d) mc = Some (Inr (POSITIVE_INTEGER u), mc)"
      "pack (Suc n) h [Number d] = Some (Inr (pack_uint64 u))"
      by (simp_all add: p u(1))
    with u(2,3) show "\<exists>u. v8_to_msgpack (Suc n) h (Number d) mc =
             Some (Inr (POSITIVE_INTEGER u), mc) \<and>
           pack (Suc n) h [Number d] = Some (Inr (pack_uint64 u)) \<and>
           (d_val d < 2 ^ 64 \<longrightarrow> of_nat (unat u) = d_val d) \<and>
           (2 ^ 64 \<le> d_val d \<longrightarrow> u = 0)"
      by blast
  qed
  have c3: "is_finite d \<and> frac (d_val d) = 0 \<and> d_val d \<le> 0 \<longrightarrow>
      (\<exists>i. v8_to_msgpack (Suc n) h (Number d) mc = Some (Inr (NEGATIVE_INTEGER i), mc) \<and>
           pack (Suc n) h [Number d] = Some (Inr (pack_int64 i)) \<and>
           (- (2 ^ 63) \<le> d_val d \<longrightarrow> of_int (sint i) = d_val d) \<and>
           (d_val d < - (2 ^ 63) \<longrightarrow> i = 0x8000000000000000))"
  proof
    assume "is_finite d \<and> frac (d_val d) = 0 \<and> d_val d \<le> 0"
    then obtain i where i: "number_node d = NEGATIVE_INTEGER i"
      "- (2 ^ 63) \<le> d_val d \<longrightarrow> of_int (sint i) = d_val d"
      "d_val d < - (2 ^ 63) \<longrightarrow> i = 0x8000000000000000"
      using number_node_not_positive [of d] by blast
    have "v8_to_msgpack (Suc n) h (Number d) mc = Some (Inr (NEGATIVE_INTEGER i), mc)"
      "pack (Suc n) h [Number d] = Some (Inr (pack_int64 i))"
      by (simp_all add: p i(1))
    with i(2,3) show "\<exists>i. v8_to_msgpack (Suc n) h (Number d) mc =
             Some (Inr (NEGATIVE_INTEGER i), mc) \<and>
           pack (Suc n) h [Number d] = Some (Inr (pack_int64 i)) \<and>
           (- (2 ^ 63) \<le> d_val d \<longrightarrow> of_int (sint i) = d_val d) \<and>
           (d_val d < - (2 ^ 63) \<longrightarrow> i = 0x8000000000000000)"
      by blast
  qed
  have c4: "is_inf d \<longrightarrow>
      v8_to_msgpack (Suc n) h (Number d) mc =
        Some (Inr (if d_neg d then NEGATIVE_INTEGER 0x8000000000000000 else POSITIVE_INTEGER 0),
          mc)"
    by (simp add: number_node_special)
  have c5: "is_nan d \<longrightarrow> v8_to_msgpack (Suc n) h (Number d) mc = Some (Inr (DOUBLE d), mc)"
    by (simp add: number_node_special)
  from c1 c2 c3 c4 c5 show ?thesis by (intro conjI)
qed

lemma number_facts:
  "is_finite 0x3FF8000000000000 \<and> d_val 0x3FF8000000000000 = 3 / 2"
  "is_finite 0 \<and> d_val 0 = 0"
  "is_finite 0xC014000000000000 \<and> d_val 0xC014000000000000 = - 5"
  "is_finite 0x4014000000000000 \<and> d_val 0x4014000000000000 = 5"
  "is_finite 0x4202A05F20000000 \<and> d_val 0x4202A05F20000000 = 10000000000"
  "is_finite 0x43F0000000000000 \<and> d_val 0x43F0000000000000 = 2 ^ 64"
  "is_inf 0xFFF0000000000000 \<and> d_neg 0xFFF0000000000000"
  "is_nan 0x7FF8000000000000"
  by (simp_all add: d_val_def double_defs)

lemma number_conversions:
  "v8_to_msgpack (Suc 0) [] (Number 0x3FF8000000000000) [] =
     Some (Inr (DOUBLE 0x3FF8000000000000), [])"
  "v8_to_msgpack (Suc 0) [] (Number 0) [] = Some (Inr (NEGATIVE_INTEGER 0), [])"
  "v8_to_msgpack (Suc 0) [] (Number 0xC014000000000000) [] = Some (Inr (NEGATIVE_INTEGER (- 5)), [])"
  "v8_to_msgpack (Suc 0) [] (Number 0x4014000000000000) [] = Some (Inr (POSITIVE_INTEGER 5), [])"
  "v8_to_msgpack (Suc 0) [] (Number 0x4202A05F20000000) [] =
     Some (Inr (POSITIVE_INTEGER 10000000000), [])"
  "v8_to_msgpack (Suc 0) [] (Number 0x43F0000000000000) [] = Some (Inr (POSITIVE_INTEGER 0), [])"
  by (simp_all add: number_node_def double_defs)

lemma number_bytes:
  "pack (Suc 0) [] [Number 0x3FF8000000000000] = Some (Inr [0xcb, 0x3f, 0xf8, 0, 0, 0, 0, 0, 0])"
  "pack (Suc 0) [] [Number 0] = Some (Inr [0x00])"
  "pack (Suc 0) [] [Number 0xC014000000000000] = Some (Inr [0xfb])"
  "pack (Suc 0) [] [Number 0x4014000000000000] = Some (Inr [0x05])"
  "pack (Suc 0) [] [Number 0x4202A05F20000000] =
     Some (Inr [0xcf, 0, 0, 0, 0x02, 0x54, 0x0b, 0xe4, 0])"
  "pack (Suc 0) [] [Number 0x43F0000000000000] = Some (Inr [0x00])"
  by (simp_all add: pack_defs number_node_def double_defs be_8)

theorem number_node_heuristic_witness:
  "is_finite 0x3FF8000000000000 \<and> d_val 0x3FF8000000000000 = 3 / 2 \<and>
   v8_to_msgpack (Suc 0) [] (Number 0x3FF8000000000000) [] =
     Some (Inr (DOUBLE 0x3FF8000000000000), []) \<and>
   pack (Suc 0) [] [Number 0x3FF8000000000000] =
     Some (Inr [0xcb, 0x3f, 0xf8, 0, 0, 0, 0, 0, 0]) \<and>
   is_finite 0 \<and> d_val 0 = 0 \<and>
   v8_to_msgpack (Suc 0) [] (Number 0) [] = Some (Inr (NEGATIVE_INTEGER 0), []) \<and>
   pack (Suc 0) [] [Number 0] = Some (Inr [0x00]) \<and>
   is_finite 0xC014000000000000 \<and> d_val 0xC014000000000000 = - 5 \<and>
   v8_to_msgpack (Suc 0) [] (Number 0xC014000000000000) [] =
     Some (Inr (NEGATIVE_INTEGER (- 5)), []) \<and>
   pack (Suc 0) [] [Number 0xC014000000000000] = Some (Inr [0xfb]) \<and>
   is_finite 0x4014000000000000 \<and> d_val 0x4014000000000000 = 5 \<and>
   v8_to_msgpack (Suc 0) [] (Number 0x4014000000000000) [] =
     Some (Inr (POSITIVE_INTEGER 5), []) \<and>
   pack (Suc 0) [] [Number 0x4014000000000000] = Some (Inr [0x05]) \<and>
   is_finite 0x4202A05F20000000 \<and> d_val 0x4202A05F20000000 = 10000000000 \<and>
   v8_to_msgpack (Suc 0) [] (Number 0x4202A05F20000000) [] =
     Some (Inr (POSITIVE_INTEGER 10000000000), []) \<and>
   pack (Suc 0) [] [Number 0x4202A05F20000000] =
     Some (Inr [0xcf, 0, 0, 0, 0x02, 0x54, 0x0b, 0xe4, 0]) \<and>
   is_finite 0x43F0000000000000 \<and> d_val 0x43F0000000000000 = 2 ^ 64 \<and>
   v8_to_msgpack (Suc 0) [] (Number 0x43F0000000000000) [] =
     Some (Inr (POSITIVE_INTEGER 0), []) \<and>
   is_inf 0xFFF0000000000000 \<and>
   v8_to_msgpack (Suc 0) [] (Number 0xFFF0000000000000) [] =
     Some (Inr (NEGATIVE_INTEGER 0x8000000000000000), []) \<and>
   is_nan 0x7FF8000000000000 \<and>
   v8_to_msgpack (Suc 0) [] (Number 0x7FF8000000000000) [] =
     Some (Inr (DOUBLE 0x7FF8000000000000), [])"
proof -
  from number_node_heuristic [of "0xFFF0000000000000" 0 "[]" "[]"] number_facts(7)
  have i: "v8_to_msgpack (Suc 0) [] (Number 0xFFF0000000000000) [] =
     Some (Inr (NEGATIVE_INTEGER 0x8000000000000000), [])"
    by simp
  from number_node_heuristic [of "0x7FF8000000000000" 0 "[]" "[]"] number_facts(8)
  have n: "v8_to_msgpack (Suc 0) [] (Number 0x7FF8000000000000) [] =
     Some (Inr (DOUBLE 0x7FF8000000000000), [])"
    by simp
  have "\<lfloor>3 / 2 :: rat\<rfloor> = 1" by (simp add: floor_eq_iff)
  then have "frac (3 / 2 :: rat) \<noteq> 0" by (simp add: frac_def)
  with number_node_heuristic [of "0x3FF8000000000000" 0 "[]" "[]"] number_facts(1)
  have f: "pack (Suc 0) [] [Number 0x3FF8000000000000] =
      Some (Inr (pack_double 0x3FF8000000000000))"
    by simp
  show ?thesis
    using i n number_facts number_conversions number_bytes by simp
qed

section \<open>Claims about the round trip\<close>

text \<open>
  C2. Decoding what \<^verbatim>\<open>pack\<close> wrote should return the number that was packed. A whole
  number \<open>d\<close> with \<open>2 ^ 32 \<le> d < 2 ^ 64\<close> is packed as an unsigned integer of 64 bits;
  \<^verbatim>\<open>msgpack_to_v8\<close> passes it to \<^verbatim>\<open>Integer::NewFromUnsigned\<close>, which takes 32 bits, and
  \<^verbatim>\<open>unpack\<close> returns \<open>d mod 2 ^ 32\<close>. A whole number \<open>d\<close> with
  \<open>- (2 ^ 63) \<le> d < - (2 ^ 31)\<close> is packed as a signed integer of 64 bits and comes back
  through \<^verbatim>\<open>Integer::New\<close> as a number of 32 bits. In both cases \<^verbatim>\<open>bytes_remaining\<close> is
  0 and the number returned is not \<open>d\<close>. The witness: \<^verbatim>\<open>1e10\<close> comes back as 1410065408
  and -2147483649 as 2147483647.
\<close>

theorem roundtrip_narrows_large_integers:
  "(is_finite d \<and> frac (d_val d) = 0 \<and> 2 ^ 32 \<le> d_val d \<and> d_val d < 2 ^ 64 \<longrightarrow>
      (\<exists>bs d' m. pack (Suc n) h [Number d] = Some (Inr bs) \<and>
          unpack [BufferObj bs] [Ref 0] br = (Inr (JNumber d'), Some 0) \<and>
          d_val d = of_nat m \<and> is_finite d' \<and> d_val d' = of_nat (m mod 2 ^ 32) \<and>
          d_val d' \<noteq> d_val d)) \<and>
   (is_finite d \<and> frac (d_val d) = 0 \<and> - (2 ^ 63) \<le> d_val d \<and> d_val d < - (2 ^ 31) \<longrightarrow>
      (\<exists>bs d' k. pack (Suc n) h [Number d] = Some (Inr bs) \<and>
          unpack [BufferObj bs] [Ref 0] br = (Inr (JNumber d'), Some 0) \<and>
          is_finite d' \<and> d_val d' = of_int k \<and> - (2 ^ 31) \<le> k \<and> k < 2 ^ 31 \<and>
          d_val d' \<noteq> d_val d))"
proof -
  have p: "pack (Suc n) h [Number d] = Some (Inr (msgpack_pack_object (number_node d)))"
    by (simp add: pack_single)
  have pos: "\<exists>bs d' m. pack (Suc n) h [Number d] = Some (Inr bs) \<and>
          unpack [BufferObj bs] [Ref 0] br = (Inr (JNumber d'), Some 0) \<and>
          d_val d = of_nat m \<and> is_finite d' \<and> d_val d' = of_nat (m mod 2 ^ 32) \<and>
          d_val d' \<noteq> d_val d"
    if a: "is_finite d \<and> frac (d_val d) = 0 \<and> 2 ^ 32 \<le> d_val d \<and> d_val d < 2 ^ 64"
  proof -
    from a have "0 < d_val d" by simp
    with a number_node_positive [of d] obtain u where
      u: "number_node d = POSITIVE_INTEGER u" "of_nat (unat u) = d_val d" by blast
    define m where "m = unat u"
    have v: "d_val d = of_nat m" using u(2) by (simp only: m_def)
    define r where "r = m mod 2 ^ 32"
    have r: "r < 2 ^ 53" "r < 2 ^ 32" by (simp_all add: r_def)
    have "(of_nat (2 ^ 32) :: rat) \<le> of_nat m" using a v by simp
    then have "2 ^ 32 \<le> m" by (simp only: of_nat_le_iff)
    with r(2) have "r \<noteq> m" by simp
    then have ne: "(of_nat r :: rat) \<noteq> of_nat m" by (simp only: of_nat_eq_iff) simp
    have "msgpack_to_v8 (canon (POSITIVE_INTEGER u)) = JNumber (nat_to_double r)"
      by (simp add: Integer_NewFromUnsigned_def unat_ucast_32 r_def m_def)
    with unpack_packed [of "POSITIVE_INTEGER u" br]
    have "unpack [BufferObj (msgpack_pack_object (number_node d))] [Ref 0] br =
        (Inr (JNumber (nat_to_double r)), Some 0)"
      by (simp add: u(1))
    with p v nat_to_double_finite [OF r(1)] nat_to_double_val [OF r(1)] ne
    show ?thesis unfolding r_def by (metis (no_types))
  qed
  have neg: "\<exists>bs d' k. pack (Suc n) h [Number d] = Some (Inr bs) \<and>
          unpack [BufferObj bs] [Ref 0] br = (Inr (JNumber d'), Some 0) \<and>
          is_finite d' \<and> d_val d' = of_int k \<and> - (2 ^ 31) \<le> k \<and> k < 2 ^ 31 \<and>
          d_val d' \<noteq> d_val d"
    if a: "is_finite d \<and> frac (d_val d) = 0 \<and> - (2 ^ 63) \<le> d_val d \<and> d_val d < - (2 ^ 31)"
  proof -
    from a have "d_val d \<le> 0" by simp
    with a number_node_not_positive [of d] obtain i where
      i: "number_node d = NEGATIVE_INTEGER i" "of_int (sint i) = d_val d" by blast
    define k where "k = sint (ucast i :: 32 word)"
    have b: "- (2 ^ 31) \<le> k" "k < 2 ^ 31" unfolding k_def by (rule sint_32_bounds)+
    then have k53: "\<bar>k\<bar> < 2 ^ 53" by simp
    have "(of_int (sint i) :: rat) < of_int (- (2 ^ 31))" using a i(2) by simp
    then have lt: "sint i < - (2 ^ 31)" by (simp only: of_int_less_iff)
    with b(1) have "k \<noteq> sint i" by simp
    then have ne: "(of_int k :: rat) \<noteq> of_int (sint i)" by (simp only: of_int_eq_iff) simp
    from lt have "sint i < 0" by simp
    then have "msgpack_to_v8 (canon (NEGATIVE_INTEGER i)) = JNumber (int_to_double k)"
      by (simp add: Integer_New_def k_def)
    with unpack_packed [of "NEGATIVE_INTEGER i" br]
    have "unpack [BufferObj (msgpack_pack_object (number_node d))] [Ref 0] br =
        (Inr (JNumber (int_to_double k)), Some 0)"
      by (simp add: i(1))
    with p int_to_double_finite [OF k53] int_to_double_val [OF k53] ne b i(2)
    show ?thesis by (metis (no_types))
  qed
  from pos neg show ?thesis by blast
qed

lemma large_integer_facts:
  "is_finite 0x4202A05F20000000 \<and> d_val 0x4202A05F20000000 = 10000000000"
  "is_finite 0xC1E0000000200000 \<and> d_val 0xC1E0000000200000 = - 2147483649"
  "d_val 0x41D502F900000000 = 1410065408" "d_val 0x41DFFFFFFFC00000 = 2147483647"
  by (simp_all add: d_val_def double_defs)

lemma large_integer_bytes:
  "pack (Suc 0) [] [Number 0x4202A05F20000000] =
     Some (Inr [0xcf, 0, 0, 0, 0x02, 0x54, 0x0b, 0xe4, 0])"
  "pack (Suc 0) [] [Number 0xC1E0000000200000] =
     Some (Inr [0xd3, 0xff, 0xff, 0xff, 0xff, 0x7f, 0xff, 0xff, 0xff])"
  by (simp_all add: pack_defs number_node_def double_defs be_8)

lemma large_integer_decoded:
  "unpack [BufferObj [0xcf, 0, 0, 0, 0x02, 0x54, 0x0b, 0xe4, 0]] [Ref 0] None =
     (Inr (JNumber 0x41D502F900000000), Some 0)"
  "unpack [BufferObj [0xd3, 0xff, 0xff, 0xff, 0xff, 0x7f, 0xff, 0xff, 0xff]] [Ref 0] None =
     (Inr (JNumber 0x41DFFFFFFFC00000), Some 0)"
  by (simp_all add: unpack_defs Integer_New_def Integer_NewFromUnsigned_def int_to_double_def
      nat_to_double_def msb.simps)

theorem roundtrip_narrows_large_integers_witness:
  "is_finite 0x4202A05F20000000 \<and> d_val 0x4202A05F20000000 = 10000000000 \<and>
   pack (Suc 0) [] [Number 0x4202A05F20000000] =
     Some (Inr [0xcf, 0, 0, 0, 0x02, 0x54, 0x0b, 0xe4, 0]) \<and>
   unpack [BufferObj [0xcf, 0, 0, 0, 0x02, 0x54, 0x0b, 0xe4, 0]] [Ref 0] None =
     (Inr (JNumber 0x41D502F900000000), Some 0) \<and>
   d_val 0x41D502F900000000 = 1410065408 \<and>
   (\<exists>d'. unpack [BufferObj [0xcf, 0, 0, 0, 0x02, 0x54, 0x0b, 0xe4, 0]] [Ref 0] None =
          (Inr (JNumber d'), Some 0) \<and> d_val d' \<noteq> 10000000000) \<and>
   is_finite 0xC1E0000000200000 \<and> d_val 0xC1E0000000200000 = - 2147483649 \<and>
   pack (Suc 0) [] [Number 0xC1E0000000200000] =
     Some (Inr [0xd3, 0xff, 0xff, 0xff, 0xff, 0x7f, 0xff, 0xff, 0xff]) \<and>
   unpack [BufferObj [0xd3, 0xff, 0xff, 0xff, 0xff, 0x7f, 0xff, 0xff, 0xff]] [Ref 0] None =
     (Inr (JNumber 0x41DFFFFFFFC00000), Some 0) \<and>
   d_val 0x41DFFFFFFFC00000 = 2147483647"
proof -
  have "frac (10000000000 :: rat) = 0" by simp
  with roundtrip_narrows_large_integers [of "0x4202A05F20000000" 0 "[]" None]
    large_integer_facts(1)
  obtain bs d' where "pack (Suc 0) [] [Number 0x4202A05F20000000] = Some (Inr bs)"
    "unpack [BufferObj bs] [Ref 0] None = (Inr (JNumber d'), Some 0)"
    "d_val d' \<noteq> 10000000000"
    by auto
  with large_integer_bytes(1)
  have "\<exists>d'. unpack [BufferObj [0xcf, 0, 0, 0, 0x02, 0x54, 0x0b, 0xe4, 0]] [Ref 0] None =
          (Inr (JNumber d'), Some 0) \<and> d_val d' \<noteq> 10000000000"
    by auto
  with large_integer_facts large_integer_bytes large_integer_decoded show ?thesis by simp
qed

section \<open>Claims about circular references\<close>

text \<open>
  C5. Packing a composite that contains itself should throw the TypeError with the fixed
  message. \<^verbatim>\<open>pack\<close> does so only when the composite is the argument itself and is met
  again among its own children before any other cycle: then \<^verbatim>\<open>enter\<close> pops the one
  entry of the guard and throws. When the first child without an unfolding is another
  composite, the cycle is met with at least two entries on the guard; \<^verbatim>\<open>enter\<close> pops
  one, the guard stays non-empty, and the assertion in \<^verbatim>\<open>~MsgpackCycle\<close> aborts the
  process instead. This happens for \<^verbatim>\<open>a = []; b = [a]; a.push(b, a); pack(a)\<close> and for
  \<^verbatim>\<open>a = []; a.push(a); pack([a])\<close>. A value on a cycle never yields bytes: the call
  throws or aborts. A value with a finite unfolding is packed without error: handles are
  compared by identity, so an object reached twice along different paths, and distinct
  objects with equal contents, raise nothing.
\<close>

theorem circular_reference_outcomes:
  "(denotes h v t \<and> tsize t < n \<longrightarrow>
      pack n h [v] = Some (Inr (msgpack_pack_object (node_of t)))) \<and>
   (heap_get h a = Some ob \<and> children ob = pre @ Ref a # post \<and>
    (\<forall>y\<in>set pre. \<exists>t. denotes h y t \<and> tsize t < Suc n) \<longrightarrow>
      pack (Suc (Suc n)) h [Ref a] =
        Some (Inl (Throw (TypeError
          ''Cowardly refusing to pack object with circular reference'')))) \<and>
   (wf_heap h \<and> length h < n \<and> heap_get h a = Some ob \<and> children ob = pre @ x # post \<and>
    (\<forall>y\<in>set pre. \<exists>t. denotes h y t \<and> tsize t < n) \<and> x \<noteq> Ref a \<and>
    (\<forall>t. \<not> denotes h x t) \<longrightarrow>
      pack (Suc n) h [Ref a] = Some (Inl Abort)) \<and>
   (wf_heap h \<and> valid_handle h v \<and> length h < n \<and> (\<forall>t. \<not> denotes h v t) \<longrightarrow>
      pack n h [v] = Some (Inl Abort) \<or>
      pack n h [v] =
        Some (Inl (Throw (TypeError
          ''Cowardly refusing to pack object with circular reference''))))"
proof -
  have c1: "denotes h v t \<and> tsize t < n \<longrightarrow>
      pack n h [v] = Some (Inr (msgpack_pack_object (node_of t)))"
  proof
    assume "denotes h v t \<and> tsize t < n"
    then have "v8_to_msgpack n h v [] = Some (Inr (node_of t), [])"
      by (intro convert_denoted) simp_all
    then show "pack n h [v] = Some (Inr (msgpack_pack_object (node_of t)))"
      by (simp add: pack_single)
  qed
  have c2: "heap_get h a = Some ob \<and> children ob = pre @ Ref a # post \<and>
    (\<forall>y\<in>set pre. \<exists>t. denotes h y t \<and> tsize t < Suc n) \<longrightarrow>
      pack (Suc (Suc n)) h [Ref a] =
        Some (Inl (Throw (TypeError
          ''Cowardly refusing to pack object with circular reference'')))"
  proof
    assume a: "heap_get h a = Some ob \<and> children ob = pre @ Ref a # post \<and>
      (\<forall>y\<in>set pre. \<exists>t. denotes h y t \<and> tsize t < Suc n)"
    then have "v8_to_msgpack (Suc (Suc n)) h (Ref a) [] = Some (Inl (TypeError circular_msg), [])"
      by (intro direct_cycle_throws [where ob = ob and pre = pre and post = post]) simp_all
    then show "pack (Suc (Suc n)) h [Ref a] =
        Some (Inl (Throw (TypeError
          ''Cowardly refusing to pack object with circular reference'')))"
      by (simp add: pack_single circular_msg_def)
  qed
  have c3: "wf_heap h \<and> length h < n \<and> heap_get h a = Some ob \<and>
    children ob = pre @ x # post \<and>
    (\<forall>y\<in>set pre. \<exists>t. denotes h y t \<and> tsize t < n) \<and> x \<noteq> Ref a \<and>
    (\<forall>t. \<not> denotes h x t) \<longrightarrow>
      pack (Suc n) h [Ref a] = Some (Inl Abort)"
  proof
    assume a: "wf_heap h \<and> length h < n \<and> heap_get h a = Some ob \<and>
      children ob = pre @ x # post \<and>
      (\<forall>y\<in>set pre. \<exists>t. denotes h y t \<and> tsize t < n) \<and> x \<noteq> Ref a \<and>
      (\<forall>t. \<not> denotes h x t)"
    then have "\<exists>mc. v8_to_msgpack (Suc n) h (Ref a) [] =
        Some (Inl (TypeError circular_msg), mc) \<and> mc \<noteq> []"
      by (intro nested_cycle_leaves_guard [where ob = ob and pre = pre and post = post and x = x])
        simp_all
    then show "pack (Suc n) h [Ref a] = Some (Inl Abort)"
      by (auto simp: pack_single)
  qed
  have c4: "wf_heap h \<and> valid_handle h v \<and> length h < n \<and> (\<forall>t. \<not> denotes h v t) \<longrightarrow>
      pack n h [v] = Some (Inl Abort) \<or>
      pack n h [v] =
        Some (Inl (Throw (TypeError
          ''Cowardly refusing to pack object with circular reference'')))"
  proof
    assume a: "wf_heap h \<and> valid_handle h v \<and> length h < n \<and> (\<forall>t. \<not> denotes h v t)"
    then have wf: "wf_heap h" and vh: "valid_handle h v"
      and "card {b. b < length h \<and> Ref b \<notin> set []} < n"
      by simp_all
    from v8_to_msgpack_total [OF wf vh this(3)] obtain res mc where
      r: "v8_to_msgpack n h v [] = Some (res, mc)" by auto
    show "pack n h [v] = Some (Inl Abort) \<or>
      pack n h [v] =
        Some (Inl (Throw (TypeError
          ''Cowardly refusing to pack object with circular reference'')))"
    proof (cases res)
      case (Inl e)
      with r v8_to_msgpack_throw [of n h v "[]" e mc] show ?thesis
        by (simp add: pack_single circular_msg_def)
    next
      case (Inr mo)
      with r success_denotes [of n h v "[]" mo mc] a show ?thesis by blast
    qed
  qed
  from c1 c2 c3 c4 show ?thesis by (intro conjI)
qed

lemma cycle_examples:
  "\<forall>t. \<not> denotes [ArrayObj [Ref 1, Ref 0], ArrayObj [Ref 0]] (Ref 1) t"
  "\<forall>t. \<not> denotes [ArrayObj [Ref 1], ArrayObj [Ref 1]] (Ref 1) t"
proof -
  let ?h = "[ArrayObj [Ref 1, Ref 0], ArrayObj [Ref 0]]"
  have g: "heap_get ?h 0 = Some (ArrayObj [Ref 1, Ref 0])" "heap_get ?h 1 = Some (ArrayObj [Ref 0])"
    by (simp_all add: heap_get_def)
  have z: "\<not> denotes ?h (Ref 0) t" for t
    by (rule no_unfolding_self [OF g(1)]) simp
  show "\<forall>t. \<not> denotes ?h (Ref 1) t"
  proof (intro allI notI)
    fix t assume "denotes ?h (Ref 1) t"
    from denotes_children [OF this g(2), of "Ref 0"] z show False by auto
  qed
  have "heap_get [ArrayObj [Ref 1], ArrayObj [Ref 1]] 1 = Some (ArrayObj [Ref 1])"
    by (simp add: heap_get_def)
  from no_unfolding_self [OF this]
  show "\<forall>t. \<not> denotes [ArrayObj [Ref 1], ArrayObj [Ref 1]] (Ref 1) t" by simp
qed

lemma cycle_packs:
  "pack (Suc (Suc 0)) [ArrayObj [Ref 0]] [Ref 0] =
     Some (Inl (Throw (TypeError ''Cowardly refusing to pack object with circular reference'')))"
  "pack (Suc (Suc 0)) [PlainObj [(Str [0x78], Ref 0)]] [Ref 0] =
     Some (Inl (Throw (TypeError ''Cowardly refusing to pack object with circular reference'')))"
  "pack (Suc (Suc (Suc (Suc 0)))) [ArrayObj [Ref 1, Ref 0], ArrayObj [Ref 0]] [Ref 0] =
     Some (Inl Abort)"
  "pack (Suc (Suc (Suc (Suc 0)))) [ArrayObj [Ref 1], ArrayObj [Ref 1]] [Ref 0] = Some (Inl Abort)"
  "pack (Suc (Suc (Suc 0))) [ArrayObj [Ref 1, Ref 1], ArrayObj []] [Ref 0] =
     Some (Inr [0x92, 0x90, 0x90])"
  "pack (Suc (Suc (Suc 0)))
     [PlainObj [(Str [0x61], Ref 1), (Str [0x62], Ref 2)], ArrayObj [], ArrayObj []] [Ref 0] =
     Some (Inr [0x82, 0xa1, 0x61, 0x90, 0xa1, 0x62, 0x90])"
  by (simp_all add: pack_defs circular_msg_def)

theorem circular_reference_outcomes_witness:
  "heap_get [ArrayObj [Ref 0]] 0 = Some (ArrayObj [Ref 0]) \<and>
   children (ArrayObj [Ref 0]) = [] @ Ref 0 # [] \<and>
   pack (Suc (Suc 0)) [ArrayObj [Ref 0]] [Ref 0] =
     Some (Inl (Throw (TypeError ''Cowardly refusing to pack object with circular reference''))) \<and>
   pack (Suc (Suc 0)) [PlainObj [(Str [0x78], Ref 0)]] [Ref 0] =
     Some (Inl (Throw (TypeError ''Cowardly refusing to pack object with circular reference''))) \<and>
   wf_heap [ArrayObj [Ref 1, Ref 0], ArrayObj [Ref 0]] \<and>
   heap_get [ArrayObj [Ref 1, Ref 0], ArrayObj [Ref 0]] 0 = Some (ArrayObj [Ref 1, Ref 0]) \<and>
   children (ArrayObj [Ref 1, Ref 0]) = [] @ Ref 1 # [Ref 0] \<and>
   (\<forall>t. \<not> denotes [ArrayObj [Ref 1, Ref 0], ArrayObj [Ref 0]] (Ref 1) t) \<and>
   pack (Suc (Suc (Suc (Suc 0)))) [ArrayObj [Ref 1, Ref 0], ArrayObj [Ref 0]] [Ref 0] =
     Some (Inl Abort) \<and>
   wf_heap [ArrayObj [Ref 1], ArrayObj [Ref 1]] \<and>
   (\<forall>t. \<not> denotes [ArrayObj [Ref 1], ArrayObj [Ref 1]] (Ref 1) t) \<and>
   pack (Suc (Suc (Suc (Suc 0)))) [ArrayObj [Ref 1], ArrayObj [Ref 1]] [Ref 0] =
     Some (Inl Abort) \<and>
   denotes [ArrayObj [Ref 1, Ref 1], ArrayObj []] (Ref 0) (TArray [TArray [], TArray []]) \<and>
   pack (Suc (Suc (Suc (Suc 0)))) [ArrayObj [Ref 1, Ref 1], ArrayObj []] [Ref 0] =
     Some (Inr [0x92, 0x90, 0x90]) \<and>
   denotes [PlainObj [(Str [0x61], Ref 1), (Str [0x62], Ref 2)], ArrayObj [], ArrayObj []] (Ref 0)
     (TObject [(TString [0x61], TArray []), (TString [0x62], TArray [])]) \<and>
   pack (Suc (Suc (Suc 0)))
     [PlainObj [(Str [0x61], Ref 1), (Str [0x62], Ref 2)], ArrayObj [], ArrayObj []] [Ref 0] =
     Some (Inr [0x82, 0xa1, 0x61, 0x90, 0xa1, 0x62, 0x90])"
proof -
  have w: "wf_heap [ArrayObj [Ref 1, Ref 0], ArrayObj [Ref 0]]"
    "wf_heap [ArrayObj [Ref 1], ArrayObj [Ref 1]]"
    by (simp_all add: wf_heap_def valid_handle_def)
  have g: "heap_get [ArrayObj [Ref 0]] 0 = Some (ArrayObj [Ref 0])"
    "heap_get [ArrayObj [Ref 1, Ref 0], ArrayObj [Ref 0]] 0 = Some (ArrayObj [Ref 1, Ref 0])"
    by (simp_all add: heap_get_def)
  from circular_reference_outcomes [where h = "[ArrayObj [Ref 1, Ref 0], ArrayObj [Ref 0]]"
      and a = 0 and ob = "ArrayObj [Ref 1, Ref 0]" and pre = "[]" and x = "Ref 1"
      and post = "[Ref 0]" and n = "Suc (Suc (Suc 0))"]
    w(1) g(2) cycle_examples(1)
  have a: "pack (Suc (Suc (Suc (Suc 0)))) [ArrayObj [Ref 1, Ref 0], ArrayObj [Ref 0]] [Ref 0] =
     Some (Inl Abort)"
    by simp
  from circular_reference_outcomes [where h = "[ArrayObj [Ref 0]]" and a = 0
      and ob = "ArrayObj [Ref 0]" and pre = "[]" and post = "[]" and n = 0] g(1)
  have b: "pack (Suc (Suc 0)) [ArrayObj [Ref 0]] [Ref 0] =
     Some (Inl (Throw (TypeError ''Cowardly refusing to pack object with circular reference'')))"
    by simp
  have "tsize (TArray [TArray [], TArray []]) < Suc (Suc (Suc (Suc 0)))" by simp
  with circular_reference_outcomes [where h = "[ArrayObj [Ref 1, Ref 1], ArrayObj []]"
      and v = "Ref 0" and t = "TArray [TArray [], TArray []]" and n = "Suc (Suc (Suc (Suc 0)))",
      THEN conjunct1]
    denotes_examples(1)
  have "pack (Suc (Suc (Suc (Suc 0)))) [ArrayObj [Ref 1, Ref 1], ArrayObj []] [Ref 0] =
     Some (Inr (msgpack_pack_object (node_of (TArray [TArray [], TArray []]))))"
    by blast
  then have c: "pack (Suc (Suc (Suc (Suc 0)))) [ArrayObj [Ref 1, Ref 1], ArrayObj []] [Ref 0] =
     Some (Inr [0x92, 0x90, 0x90])"
    by (simp add: pack_array_def)
  show ?thesis
    using a b c w g cycle_examples cycle_packs denotes_examples by simp
qed

section \<open>Claims about \<^verbatim>\<open>unpack\<close>\<close>

lemma msgpack_to_v8_defined: "msgpack_to_v8 mo \<noteq> JUndefined"
  by (cases mo) simp_all

text \<open>
  C9. When the first argument is not a Buffer, and in particular when there is no
  argument at all, \<^verbatim>\<open>unpack\<close> throws the TypeError "First argument must be a Buffer";
  nothing is decoded and \<^verbatim>\<open>bytes_remaining\<close> keeps its value.
\<close>

theorem unpack_requires_buffer:
  "(\<not> Buffer_HasInstance h (arg args 0) \<longrightarrow>
      unpack h args br = (Inl (TypeError ''First argument must be a Buffer''), br)) \<and>
   unpack h [] br = (Inl (TypeError ''First argument must be a Buffer''), br)"
  by (simp add: unpack_def arg_def Buffer_HasInstance_def)

theorem unpack_requires_buffer_witness:
  "\<not> Buffer_HasInstance [ArrayObj []] (arg [Ref 0, Null] 0) \<and>
   unpack [ArrayObj []] [Ref 0, Null] (Some 0) =
     (Inl (TypeError ''First argument must be a Buffer''), Some 0)"
  using unpack_requires_buffer [of "[ArrayObj []]" "[Ref 0, Null]" "Some 0"]
  by (simp add: arg_def Buffer_HasInstance_def heap_get_def)


section \<open>Claims about decoded integers\<close>

text \<open>
  C8. A decoded positive integer becomes the number whose value is the wire value modulo
  \<open>2 ^ 32\<close>, a decoded negative integer the number whose value is the low 32 bits of the
  wire value read as a signed integer; so a positive integer of \<open>2 ^ 32\<close> or more and a
  negative integer below \<open>- (2 ^ 31)\<close> do not decode to their value.
\<close>

theorem decoded_integers_are_32_bit:
  "(\<exists>d. msgpack_to_v8 (POSITIVE_INTEGER u) = JNumber d \<and> is_finite d \<and>
        d_val d = of_nat (unat u mod 2 ^ 32) \<and>
        (2 ^ 32 \<le> unat u \<longrightarrow> d_val d \<noteq> of_nat (unat u))) \<and>
   (\<exists>d. msgpack_to_v8 (NEGATIVE_INTEGER i) = JNumber d \<and> is_finite d \<and>
        d_val d = of_int (sint (ucast i :: 32 word)) \<and>
        (sint i < - (2 ^ 31) \<longrightarrow> d_val d \<noteq> of_int (sint i)))"
proof (intro conjI)
  define n where "n = unat u mod 2 ^ 32"
  have lt: "n < 2 ^ 32" by (simp add: n_def)
  then have lt53: "n < 2 ^ 53" by simp
  have m: "msgpack_to_v8 (POSITIVE_INTEGER u) = JNumber (nat_to_double n)"
    by (simp add: Integer_NewFromUnsigned_def unat_ucast_32 n_def)
  have "2 ^ 32 \<le> unat u \<longrightarrow> n \<noteq> unat u" using lt by auto
  then have ne: "2 ^ 32 \<le> unat u \<longrightarrow> (of_nat n :: rat) \<noteq> of_nat (unat u)"
    by (simp only: of_nat_eq_iff)
  show "\<exists>d. msgpack_to_v8 (POSITIVE_INTEGER u) = JNumber d \<and> is_finite d \<and>
        d_val d = of_nat (unat u mod 2 ^ 32) \<and>
        (2 ^ 32 \<le> unat u \<longrightarrow> d_val d \<noteq> of_nat (unat u))"
    using m nat_to_double_finite [OF lt53] nat_to_double_val [OF lt53] ne
    unfolding n_def [symmetric] by auto
next
  define k where "k = sint (ucast i :: 32 word)"
  have b: "- (2 ^ 31) \<le> k" "k < 2 ^ 31" unfolding k_def by (rule sint_32_bounds)+
  then have lt53: "\<bar>k\<bar> < 2 ^ 53" by simp
  have m: "msgpack_to_v8 (NEGATIVE_INTEGER i) = JNumber (int_to_double k)"
    by (simp add: Integer_New_def k_def)
  have "sint i < - (2 ^ 31) \<longrightarrow> k \<noteq> sint i" using b by auto
  then have ne: "sint i < - (2 ^ 31) \<longrightarrow> (of_int k :: rat) \<noteq> of_int (sint i)"
    by (simp only: of_int_eq_iff)
  show "\<exists>d. msgpack_to_v8 (NEGATIVE_INTEGER i) = JNumber d \<and> is_finite d \<and>
        d_val d = of_int (sint (ucast i :: 32 word)) \<and>
        (sint i < - (2 ^ 31) \<longrightarrow> d_val d \<noteq> of_int (sint i))"
    using m int_to_double_finite [OF lt53] int_to_double_val [OF lt53] ne
    unfolding k_def [symmetric] by auto
qed


theorem decoded_integers_are_32_bit_witness:
  "2 ^ 32 \<le> unat (4294967296 :: 64 word) \<and>
   msgpack_to_v8 (POSITIVE_INTEGER 4294967296) = JNumber 0 \<and> d_val 0 = 0 \<and>
   sint (- 2147483649 :: 64 word) < - (2 ^ 31) \<and>
   msgpack_to_v8 (NEGATIVE_INTEGER (- 2147483649)) = JNumber 0x41DFFFFFFFC00000 \<and>
   d_val 0x41DFFFFFFFC00000 = 2147483647"
  using decoded_integers_are_32_bit [of 4294967296 "- 2147483649"]
  by (simp add: Integer_New_def Integer_NewFromUnsigned_def int_to_double_def nat_to_double_def
      msb.simps d_val_def double_defs)

section \<open>Claims about the result of \<^verbatim>\<open>unpack\<close>\<close>





section \<open>Claims about incomplete and malformed buffers\<close>

text \<open>
  C6. Let the first argument of \<^verbatim>\<open>unpack\<close> be a Buffer. The call returns \<^verbatim>\<open>undefined\<close>,
  throws nothing and leaves \<^verbatim>\<open>bytes_remaining\<close> as it was, exactly when the buffer is
  short of a complete object: some non-empty sequence of bytes appended to it gives
  exactly one object. In particular this holds for every strict prefix of the encoding of
  a node (the empty buffer included). The call throws the Error
  \<^verbatim>\<open>Error de-serializing object\<close>, again leaving \<^verbatim>\<open>bytes_remaining\<close> as it was, exactly
  when no sequence of bytes appended to the buffer makes it start with an object, which is
  the case when the parser meets a byte that is no type tag of the format, such as
  \<^verbatim>\<open>c1\<close>. The witness is the encoding of \<^verbatim>\<open>{a: 1, b: [1, 2, 3]}\<close> without its
  last byte, and the buffer \<^verbatim>\<open>92 01 c1\<close>.
\<close>

theorem unpack_incomplete_or_malformed:
  assumes "Buffer_HasInstance h (arg args 0)"
  shows
    "((\<exists>ext. ext \<noteq> [] \<and> complete_object (Buffer_Data h (arg args 0) @ ext)) \<longleftrightarrow>
        unpack h args br = (Inr JUndefined, br)) \<and>
     ((\<forall>ext. \<not> starts_with_object (Buffer_Data h (arg args 0) @ ext)) \<longleftrightarrow>
        unpack h args br = (Inl (Error ''Error de-serializing object''), br)) \<and>
     (sizes_ok mo \<and> strict_prefix (Buffer_Data h (arg args 0)) (msgpack_pack_object mo) \<longrightarrow>
        unpack h args br = (Inr JUndefined, br))"
proof -
  define buf where "buf = Buffer_Data h (arg args 0)"
  have a: "exec [] buf = NeedMore \<longleftrightarrow> unpack h args br = (Inr JUndefined, br)"
    using assms
    by (auto simp: unpack_def msgpack_unpack_exec Let_def buf_def msgpack_to_v8_defined
        split: step.splits)
  have b: "exec [] buf = Bad \<longleftrightarrow> unpack h args br = (Inl (Error ''Error de-serializing object''), br)"
    using assms
    by (auto simp: unpack_def msgpack_unpack_exec Let_def buf_def split: step.splits)
  have c: "unpack h args br = (Inr JUndefined, br)"
    if "sizes_ok mo" "strict_prefix buf (msgpack_pack_object mo)"
  proof -
    from that(2) obtain ext where e: "msgpack_pack_object mo = buf @ ext" "ext \<noteq> []"
      by (auto simp: strict_prefix_def prefix_def)
    from exec_pack_top [OF that(1)] e(1) have "exec [] (buf @ ext) = Got (canon mo) []" by simp
    from exec_prefix [OF this e(2)] a show ?thesis by simp
  qed
  show ?thesis
    unfolding buf_def [symmetric] truncated_iff malformed_iff using a b c by blast
qed

theorem unpack_incomplete_or_malformed_witness:
  "Buffer_HasInstance [BufferObj [0x82, 0xa1, 0x61, 0x01, 0xa1, 0x62, 0x93, 0x01, 0x02]]
     (arg [Ref 0] 0) \<and>
   sizes_ok (MAP [(RAW [0x61], POSITIVE_INTEGER 1),
     (RAW [0x62], ARRAY [POSITIVE_INTEGER 1, POSITIVE_INTEGER 2, POSITIVE_INTEGER 3])]) \<and>
   msgpack_pack_object (MAP [(RAW [0x61], POSITIVE_INTEGER 1),
     (RAW [0x62], ARRAY [POSITIVE_INTEGER 1, POSITIVE_INTEGER 2, POSITIVE_INTEGER 3])]) =
     [0x82, 0xa1, 0x61, 0x01, 0xa1, 0x62, 0x93, 0x01, 0x02] @ [0x03] \<and>
   complete_object ([0x82, 0xa1, 0x61, 0x01, 0xa1, 0x62, 0x93, 0x01, 0x02] @ [0x03]) \<and>
   unpack [BufferObj [0x82, 0xa1, 0x61, 0x01, 0xa1, 0x62, 0x93, 0x01, 0x02]] [Ref 0] (Some 0) =
     (Inr JUndefined, Some 0) \<and>
   Buffer_HasInstance [BufferObj [0x92, 0x01, 0xc1]] (arg [Ref 0] 0) \<and>
   (\<forall>ext. \<not> starts_with_object ([0x92, 0x01, 0xc1] @ ext)) \<and>
   unpack [BufferObj [0x92, 0x01, 0xc1]] [Ref 0] (Some 0) =
     (Inl (Error ''Error de-serializing object''), Some 0)"
proof -
  have b: "Buffer_HasInstance [BufferObj [0x82, 0xa1, 0x61, 0x01, 0xa1, 0x62, 0x93, 0x01, 0x02]]
       (arg [Ref 0] 0)"
    "Buffer_HasInstance [BufferObj [0x92, 0x01, 0xc1]] (arg [Ref 0] 0)"
    "Buffer_Data [BufferObj [0x82, 0xa1, 0x61, 0x01, 0xa1, 0x62, 0x93, 0x01, 0x02]] (arg [Ref 0] 0) =
       [0x82, 0xa1, 0x61, 0x01, 0xa1, 0x62, 0x93, 0x01, 0x02]"
    "Buffer_Data [BufferObj [0x92, 0x01, 0xc1]] (arg [Ref 0] 0) = [0x92, 0x01, 0xc1]"
    by (simp_all add: Buffer_HasInstance_def Buffer_Data_def arg_def heap_get_def)
  have s: "sizes_ok (MAP [(RAW [0x61], POSITIVE_INTEGER 1),
     (RAW [0x62], ARRAY [POSITIVE_INTEGER 1, POSITIVE_INTEGER 2, POSITIVE_INTEGER 3])])"
    by simp
  have p: "msgpack_pack_object (MAP [(RAW [0x61], POSITIVE_INTEGER 1),
     (RAW [0x62], ARRAY [POSITIVE_INTEGER 1, POSITIVE_INTEGER 2, POSITIVE_INTEGER 3])]) =
     [0x82, 0xa1, 0x61, 0x01, 0xa1, 0x62, 0x93, 0x01, 0x02] @ [0x03]"
    by (simp add: pack_defs)
  have c: "complete_object ([0x82, 0xa1, 0x61, 0x01, 0xa1, 0x62, 0x93, 0x01, 0x02] @ [0x03])"
    by (simp add: complete_object_def unpack_defs)
  have e: "unpack [BufferObj [0x92, 0x01, 0xc1]] [Ref 0] (Some 0) =
     (Inl (Error ''Error de-serializing object''), Some 0)"
    by (simp add: unpack_defs)
  from c have x: "\<exists>ext. ext \<noteq> [] \<and>
      complete_object ([0x82, 0xa1, 0x61, 0x01, 0xa1, 0x62, 0x93, 0x01, 0x02] @ ext)"
    by (intro exI [of _ "[0x03]"]) simp
  from unpack_incomplete_or_malformed [OF b(1), of "Some 0"] x
  have u: "unpack [BufferObj [0x82, 0xa1, 0x61, 0x01, 0xa1, 0x62, 0x93, 0x01, 0x02]] [Ref 0] (Some 0) =
     (Inr JUndefined, Some 0)"
    unfolding b(3) by blast
  from unpack_incomplete_or_malformed [OF b(2), of "Some 0"] e
  have m: "\<forall>ext. \<not> starts_with_object ([0x92, 0x01, 0xc1] @ ext)"
    unfolding b(4) by blast
  from b(1,2) s p c u m e show ?thesis by blast
qed


end
